theory Spec2Isabelle
  imports Complex_Main "HOL-Library.Monad_Syntax" "HOL-Library.Multiset"
begin

section \<open>Data model\<close>

text \<open>
  The program is C++. A \<^verbatim>\<open>std::vector<T>\<close> is a list. An \<^verbatim>\<open>int\<close>
  (and the \<^verbatim>\<open>long long\<close> sum of the visit counters) is an \<^typ>\<open>int\<close>: no counter,
  index or size reaches \<open>2^31\<close> in the runs considered, and wrap-around is not modelled.
  A \<^verbatim>\<open>double\<close> is a \<^typ>\<open>real\<close>: the arithmetic of the model is exact, rounding
  is not modelled.

  \<^verbatim>\<open>operator[]\<close> of a vector outside \<open>[0, size)\<close> is undefined behaviour in C++.
  The model makes every indexed access a checked one: \<open>None\<close> stands for a run that
  leaves the defined behaviour of the program.
\<close>

definition vec_at :: "'a list \<Rightarrow> int \<Rightarrow> 'a option" where
  "vec_at xs i = (if 0 \<le> i \<and> i < int (length xs) then Some (xs ! nat i) else None)"

definition vec_put :: "'a list \<Rightarrow> int \<Rightarrow> 'a \<Rightarrow> 'a list option" where
  "vec_put xs i x = (if 0 \<le> i \<and> i < int (length xs) then Some (xs[nat i := x]) else None)"

subsection \<open>NodeMapper\<close>

record NodeMapper =
  name_to_id :: "string \<rightharpoonup> int"
  id_to_name :: "string list"

definition new_mapper :: NodeMapper where
  "new_mapper = \<lparr>name_to_id = Map.empty, id_to_name = []\<rparr>"

definition getId :: "NodeMapper \<Rightarrow> string \<Rightarrow> int \<times> NodeMapper" where
  "getId m name =
     (case name_to_id m name of
        None \<Rightarrow>
          (let new_id = int (length (id_to_name m))
           in (new_id, m\<lparr>name_to_id := (name_to_id m)(name \<mapsto> new_id),
                           id_to_name := id_to_name m @ [name]\<rparr>))
      | Some i \<Rightarrow> (i, m))"

definition getNumNodes :: "NodeMapper \<Rightarrow> int" where
  "getNumNodes m = int (length (id_to_name m))"

subsection \<open>CSRGraph\<close>

record CSRGraph =
  num_nodes :: int
  num_edges :: int
  row_ptr :: "int list"
  col_indices :: "int list"
  edge_weights :: "real list"
  out_weight_sum :: "real list"

text \<open>The constructor \<^verbatim>\<open>CSRGraph(int n)\<close>.\<close>

definition CSRGraph_new :: "int \<Rightarrow> CSRGraph" where
  "CSRGraph_new n =
     \<lparr>num_nodes = n, num_edges = 0,
      row_ptr = replicate (nat (n + 1)) 0,
      col_indices = [], edge_weights = [],
      out_weight_sum = replicate (nat n) 0\<rparr>"

section \<open>The graph loader\<close>

text \<open>
  \<^verbatim>\<open>loadGraphFromFile\<close> reads the file line by line. What the stream extractions
  of one line give is the input of the model: \<open>Skipped\<close> is a blank line, a comment line
  (\<^verbatim>\<open>#\<close>, \<^verbatim>\<open>%\<close>) or a line with fewer than two tokens; \<open>EdgeLine s d w\<close> is a
  line with the two node names and the third column, \<open>None\<close> when it is absent or is not
  a number.
\<close>

datatype input_line = Skipped | EdgeLine string string "real option"

record Edge =
  e_u :: int
  e_v :: int
  e_w :: real

text \<open>Lines 262 to 270: the default weight, \<^verbatim>\<open>fabs\<close>, and the replacement of 0.\<close>

definition line_weight :: "real option \<Rightarrow> real" where
  "line_weight w_in =
     (let weight = (case w_in of None \<Rightarrow> 1 | Some x \<Rightarrow> \<bar>x\<bar>)
      in if weight = 0 then 0.0001 else weight)"

fun read_lines :: "input_line list \<Rightarrow> NodeMapper \<Rightarrow> Edge list \<Rightarrow> Edge list \<times> NodeMapper" where
  "read_lines [] mapper temp_edges = (temp_edges, mapper)"
| "read_lines (Skipped # ls) mapper temp_edges = read_lines ls mapper temp_edges"
| "read_lines (EdgeLine u_str v_str w_in # ls) mapper temp_edges =
     (let weight = line_weight w_in;
          (u, mapper1) = getId mapper u_str;
          (v, mapper2) = getId mapper1 v_str
      in read_lines ls mapper2 (temp_edges @ [\<lparr>e_u = u, e_v = v, e_w = weight\<rparr>]))"

text \<open>The adjacency list: \<^verbatim>\<open>adj[e.u].push_back({e.v, e.w})\<close> for every edge.\<close>

fun build_adj :: "Edge list \<Rightarrow> (int \<times> real) list list \<Rightarrow> (int \<times> real) list list option" where
  "build_adj [] adj = Some adj"
| "build_adj (e # es) adj =
     do { row \<leftarrow> vec_at adj (e_u e);
          adj' \<leftarrow> vec_put adj (e_u e) (row @ [(e_v e, e_w e)]);
          build_adj es adj' }"

text \<open>The inner loop of the conversion, over the neighbours of one node.\<close>

fun fill_row :: "(int \<times> real) list \<Rightarrow> CSRGraph \<Rightarrow> real \<Rightarrow> int \<Rightarrow> CSRGraph \<times> real \<times> int" where
  "fill_row [] graph sum_w cursor = (graph, sum_w, cursor)"
| "fill_row (nbr # nbrs) graph sum_w cursor =
     fill_row nbrs
       (graph\<lparr>col_indices := col_indices graph @ [fst nbr],
              edge_weights := edge_weights graph @ [snd nbr]\<rparr>)
       (sum_w + snd nbr) (cursor + 1)"

text \<open>The outer loop \<^verbatim>\<open>for (int i = 0; i < N; ++i)\<close>.\<close>

function fill_rows ::
  "(int \<times> real) list list \<Rightarrow> int \<Rightarrow> int \<Rightarrow> CSRGraph \<Rightarrow> int \<Rightarrow> (CSRGraph \<times> int) option" where
  "fill_rows adj N i graph cursor =
     (if i < N then
        do { rp \<leftarrow> vec_put (row_ptr graph) i cursor;
             row \<leftarrow> vec_at adj i;
             (case fill_row row (graph\<lparr>row_ptr := rp\<rparr>) 0 cursor of
                (graph1, sum_w, cursor1) \<Rightarrow>
                  do { ows \<leftarrow> vec_put (out_weight_sum graph1) i sum_w;
                       fill_rows adj N (i + 1) (graph1\<lparr>out_weight_sum := ows\<rparr>) cursor1 }) }
      else Some (graph, cursor))"
  by pat_completeness auto
termination
  by (relation "measure (\<lambda>(adj, N, i, graph, cursor). nat (N - i))") auto

datatype load_error = FileNotFound | OutOfRange

text \<open>
  The loader. \<open>None\<close> as the file is a file that cannot be opened (the program prints a
  message and exits with status 1). The mapper is passed by reference in the source and
  is returned here with the graph.
\<close>

definition loadGraphFromFile ::
  "input_line list option \<Rightarrow> NodeMapper \<Rightarrow> load_error + (CSRGraph \<times> NodeMapper)" where
  "loadGraphFromFile file mapper =
     (case file of
        None \<Rightarrow> Inl FileNotFound
      | Some ls \<Rightarrow>
          (case read_lines ls mapper [] of
             (temp_edges, mapper') \<Rightarrow>
               (let N = getNumNodes mapper' in
                case build_adj temp_edges (replicate (nat N) []) of
                  None \<Rightarrow> Inl OutOfRange
                | Some adj \<Rightarrow>
                    (let graph = (CSRGraph_new N)\<lparr>num_edges := int (length temp_edges)\<rparr> in
                     case fill_rows adj N 0 graph 0 of
                       None \<Rightarrow> Inl OutOfRange
                     | Some (graph', cursor) \<Rightarrow>
                         (case vec_put (row_ptr graph') N cursor of
                            None \<Rightarrow> Inl OutOfRange
                          | Some rp \<Rightarrow> Inr (graph'\<lparr>row_ptr := rp\<rparr>, mapper'))))))"

section \<open>PPREngine: power iteration\<close>

record AlgorithmResult =
  scores :: "real list"
  duration_us :: int
  iterations :: int

text \<open>The loop \<^verbatim>\<open>for (int id : seeds) if (id < N) p[id] = mass;\<close>\<close>

fun seed_loop :: "int list \<Rightarrow> int \<Rightarrow> real \<Rightarrow> real list \<Rightarrow> real list option" where
  "seed_loop [] N mass p = Some p"
| "seed_loop (sid # ids) N mass p =
     (if sid < N then do { p' \<leftarrow> vec_put p sid mass; seed_loop ids N mass p' }
      else seed_loop ids N mass p)"

definition personalization :: "int \<Rightarrow> int list \<Rightarrow> real list option" where
  "personalization N seeds =
     (let p = replicate (nat N) 0
      in if seeds \<noteq> [] then seed_loop seeds N (1 / real (length seeds)) p else Some p)"

text \<open>The loop over the outgoing edges of \<open>u\<close>, from edge \<open>k\<close> on.\<close>

function scatter_edges ::
  "CSRGraph \<Rightarrow> real list \<Rightarrow> int \<Rightarrow> int \<Rightarrow> real list \<Rightarrow> real list option" where
  "scatter_edges graph r u k r_new =
     do { hi \<leftarrow> vec_at (row_ptr graph) (u + 1);
          if k < hi then
            do { v \<leftarrow> vec_at (col_indices graph) k;
                 w \<leftarrow> vec_at (edge_weights graph) k;
                 old \<leftarrow> vec_at r_new v;
                 ru \<leftarrow> vec_at r u;
                 ows \<leftarrow> vec_at (out_weight_sum graph) u;
                 r_new' \<leftarrow> vec_put r_new v (old + ru * (w / ows));
                 scatter_edges graph r u (k + 1) r_new' }
          else Some r_new }"
  by pat_completeness auto
termination
  by (relation "measure (\<lambda>(graph, r, u, k, r_new). nat (row_ptr graph ! nat (u + 1) - k))")
     (auto simp: vec_at_def split: if_splits)

text \<open>The scatter phase \<^verbatim>\<open>for (int u = 0; u < N; ++u)\<close>, from node \<open>u\<close> on.\<close>

function scatter ::
  "CSRGraph \<Rightarrow> real list \<Rightarrow> int \<Rightarrow> int \<Rightarrow> real list \<Rightarrow> real \<Rightarrow> (real list \<times> real) option" where
  "scatter graph r N u r_new dead_mass =
     (if u < N then
        do { ows \<leftarrow> vec_at (out_weight_sum graph) u;
             if ows > 0 then
               do { lo \<leftarrow> vec_at (row_ptr graph) u;
                    r_new' \<leftarrow> scatter_edges graph r u lo r_new;
                    scatter graph r N (u + 1) r_new' dead_mass }
             else
               do { ru \<leftarrow> vec_at r u;
                    scatter graph r N (u + 1) r_new (dead_mass + ru) } }
      else Some (r_new, dead_mass))"
  by pat_completeness auto
termination
  by (relation "measure (\<lambda>(graph, r, N, u, r_new, dead_mass). nat (N - u))") auto

text \<open>The combine phase \<^verbatim>\<open>for (int i = 0; i < N; ++i)\<close>, from node \<open>i\<close> on.\<close>

function combine ::
  "real \<Rightarrow> real list \<Rightarrow> real list \<Rightarrow> real \<Rightarrow> int \<Rightarrow> int \<Rightarrow> real list \<Rightarrow> real
     \<Rightarrow> (real list \<times> real) option" where
  "combine alpha p r dead_mass N i r_new diff =
     (if i < N then
        do { rn \<leftarrow> vec_at r_new i;
             p_i \<leftarrow> vec_at p i;
             ri \<leftarrow> vec_at r i;
             (let val = (1 - alpha) * rn + alpha * p_i + (1 - alpha) * dead_mass * p_i
              in do { r_new' \<leftarrow> vec_put r_new i val;
                      combine alpha p r dead_mass N (i + 1) r_new' (diff + \<bar>val - ri\<bar>) }) }
      else Some (r_new, diff))"
  by pat_completeness auto
termination
  by (relation "measure (\<lambda>(alpha, p, r, dead_mass, N, i, r_new, diff). nat (N - i))") auto

text \<open>One sweep: the body of the power iteration up to \<^verbatim>\<open>r = r_new\<close>.\<close>

definition sweep :: "CSRGraph \<Rightarrow> real \<Rightarrow> real list \<Rightarrow> real list \<Rightarrow> (real list \<times> real) option" where
  "sweep graph alpha p r =
     (let N = num_nodes graph in
      do { (r_new, dead_mass) \<leftarrow> scatter graph r N 0 (replicate (nat N) 0) 0;
           combine alpha p r dead_mass N 0 r_new 0 })"

text \<open>The loop \<^verbatim>\<open>for (int iter = 0; iter < 100; ++iter)\<close> with its \<^verbatim>\<open>break\<close>.\<close>

function power_iteration ::
  "CSRGraph \<Rightarrow> real \<Rightarrow> real \<Rightarrow> real list \<Rightarrow> int \<Rightarrow> real list \<Rightarrow> int \<Rightarrow> (real list \<times> int) option" where
  "power_iteration graph alpha epsilon p iter r iter_count =
     (if iter < 100 then
        do { (r', diff) \<leftarrow> sweep graph alpha p r;
             if diff < epsilon then Some (r', iter + 1)
             else power_iteration graph alpha epsilon p (iter + 1) r' (iter + 1) }
      else Some (r, iter_count))"
  by pat_completeness auto
termination
  by (relation "measure (\<lambda>(graph, alpha, epsilon, p, iter, r, iter_count). nat (100 - iter))") auto

text \<open>
  \<^verbatim>\<open>PPREngine::compute\<close>. The two readings of the clock are an input of the model.
  A negative \<open>N\<close> makes the constructor of \<^verbatim>\<open>p\<close> throw; the run is then not a normal
  one (\<open>None\<close>).
\<close>

definition PPREngine_compute ::
  "int \<times> int \<Rightarrow> CSRGraph \<Rightarrow> int list \<Rightarrow> real \<Rightarrow> real \<Rightarrow> AlgorithmResult option" where
  "PPREngine_compute clock graph seeds alpha epsilon =
     (let N = num_nodes graph in
      if N < 0 then None
      else
        do { p \<leftarrow> personalization N seeds;
             (r, iter_count) \<leftarrow> power_iteration graph alpha epsilon p 0 p 0;
             Some \<lparr>scores = r, duration_us = snd clock - fst clock, iterations = iter_count\<rparr> })"

section \<open>MonteCarloEngine: random walks\<close>

text \<open>
  The random source. The generator is used through two distributions:
  \<^verbatim>\<open>prob(gen)\<close>, a real number of \<open>[0, 1)\<close>, and \<^verbatim>\<open>seed_dist(gen)\<close>, an index
  of \<open>[0, seeds.size() - 1]\<close>. A run is described by the outcomes of the draws, in the
  order in which they are made: the model takes them from two tapes and returns what is
  left of them. An integer outcome \<open>n\<close> stands for the index \<open>n mod seeds.size()\<close>, so
  that every tape describes draws inside the range.

  A run of the engine ends normally (\<open>Done\<close>), leaves the defined behaviour of the
  program (\<open>Fault\<close>), or asks for a draw that the tapes do not describe (\<open>TapeEnd\<close>):
  the walk loop is \<^verbatim>\<open>while (true)\<close> and ends only by a draw.
\<close>

record random_source =
  int_draws :: "nat list"
  real_draws :: "real list"

datatype 'a outcome = Done 'a | Fault | TapeEnd

text \<open>
  The weighted neighbour selection: the loop over the outgoing edges of \<open>cur\<close>
  (\<^verbatim>\<open>curr\<close> in the source), from edge \<open>k\<close> on. It returns the next node and, as a
  ghost value, the indices at which it has read \<^verbatim>\<open>edge_weights\<close> and
  \<^verbatim>\<open>col_indices\<close>, in the order of the reads.
\<close>

function select_edge ::
  "CSRGraph \<Rightarrow> real \<Rightarrow> int \<Rightarrow> int \<Rightarrow> real \<Rightarrow> int list \<Rightarrow> (int \<times> int list) option" where
  "select_edge graph target cur k acc reads =
     do { hi \<leftarrow> vec_at (row_ptr graph) (cur + 1);
          if k < hi then
            do { w \<leftarrow> vec_at (edge_weights graph) k;
                 (let acc' = acc + w in
                  if target \<le> acc' then
                    do { v \<leftarrow> vec_at (col_indices graph) k; Some (v, reads @ [k]) }
                  else select_edge graph target cur (k + 1) acc' (reads @ [k])) }
          else Some (cur, reads) }"
  by pat_completeness auto
termination
  by (relation "measure (\<lambda>(graph, target, cur, k, acc, reads).
                   nat (row_ptr graph ! nat (cur + 1) - k))")
     (auto simp: vec_at_def split: if_splits)

text \<open>One walk, from the node \<open>cur\<close>: the loop \<^verbatim>\<open>while (true)\<close>.\<close>

fun walk ::
  "CSRGraph \<Rightarrow> real \<Rightarrow> int \<Rightarrow> int list \<Rightarrow> real list \<Rightarrow> (int list \<times> real list) outcome" where
  "walk graph alpha cur visits us =
     (case vec_at visits cur of
        None \<Rightarrow> Fault
      | Some c \<Rightarrow>
          (let visits' = visits[nat cur := c + 1] in
           case us of
             [] \<Rightarrow> TapeEnd
           | x # us1 \<Rightarrow>
               if x < alpha then Done (visits', us1)
               else
                 (case vec_at (out_weight_sum graph) cur of
                    None \<Rightarrow> Fault
                  | Some ows \<Rightarrow>
                      if ows = 0 then Done (visits', us1)
                      else
                        (case us1 of
                           [] \<Rightarrow> TapeEnd
                         | y # us2 \<Rightarrow>
                             (case vec_at (row_ptr graph) cur of
                                None \<Rightarrow> Fault
                              | Some lo \<Rightarrow>
                                  (case select_edge graph (y * ows) cur lo 0 [] of
                                     None \<Rightarrow> Fault
                                   | Some (cur', reads) \<Rightarrow>
                                       walk graph alpha cur' visits' us2))))))"

text \<open>The loop \<^verbatim>\<open>for (int i = 0; i < total_walks; ++i)\<close>.\<close>

function walks ::
  "CSRGraph \<Rightarrow> int list \<Rightarrow> real \<Rightarrow> int \<Rightarrow> int \<Rightarrow> int list \<Rightarrow> random_source
     \<Rightarrow> (int list \<times> random_source) outcome" where
  "walks graph seeds alpha total_walks i visits gen =
     (if i < total_walks then
        (case int_draws gen of
           [] \<Rightarrow> TapeEnd
         | n # ns \<Rightarrow>
             (case vec_at seeds (int (n mod length seeds)) of
                None \<Rightarrow> Fault
              | Some cur \<Rightarrow>
                  (case walk graph alpha cur visits (real_draws gen) of
                     Done (visits', us) \<Rightarrow>
                       walks graph seeds alpha total_walks (i + 1) visits'
                         \<lparr>int_draws = ns, real_draws = us\<rparr>
                   | Fault \<Rightarrow> Fault
                   | TapeEnd \<Rightarrow> TapeEnd)))
      else Done (visits, gen))"
  by pat_completeness auto
termination
  by (relation "measure (\<lambda>(graph, seeds, alpha, total_walks, i, visits, gen).
                   nat (total_walks - i))") auto

text \<open>The loop \<^verbatim>\<open>for (int i = 0; i < N; ++i) scores[i] = (double)visits[i] / total;\<close>\<close>

function normalize_scores ::
  "int list \<Rightarrow> int \<Rightarrow> int \<Rightarrow> int \<Rightarrow> real list \<Rightarrow> real list option" where
  "normalize_scores visits tot N i sc =
     (if i < N then
        do { c \<leftarrow> vec_at visits i;
             sc' \<leftarrow> vec_put sc i (real_of_int c / real_of_int tot);
             normalize_scores visits tot N (i + 1) sc' }
      else Some sc)"
  by pat_completeness auto
termination
  by (relation "measure (\<lambda>(visits, tot, N, i, sc). nat (N - i))") auto

text \<open>
  \<^verbatim>\<open>MonteCarloEngine::compute\<close>. The generator is created after the test of
  \<^verbatim>\<open>seeds.empty()\<close>; the model returns the random source with the result.
\<close>

definition MonteCarloEngine_compute ::
  "int \<times> int \<Rightarrow> random_source \<Rightarrow> CSRGraph \<Rightarrow> int list \<Rightarrow> real \<Rightarrow> int
     \<Rightarrow> (AlgorithmResult \<times> random_source) outcome" where
  "MonteCarloEngine_compute clock gen graph seeds alpha total_walks =
     (let N = num_nodes graph in
      if N < 0 then Fault
      else
        (let visits = replicate (nat N) 0 in
         if seeds = [] then
           Done (\<lparr>scores = replicate (nat N) 0, duration_us = 0, iterations = 0\<rparr>, gen)
         else
           (case walks graph seeds alpha total_walks 0 visits gen of
              Done (visits', gen') \<Rightarrow>
                (let scores0 = replicate (nat N) 0;
                     tot = foldl (\<lambda>t v. t + v) 0 visits'
                 in case (if tot > 0 then normalize_scores visits' tot N 0 scores0
                          else Some scores0) of
                      None \<Rightarrow> Fault
                    | Some scores' \<Rightarrow>
                        Done (\<lparr>scores = scores', duration_us = snd clock - fst clock,
                               iterations = total_walks\<rparr>, gen'))
            | Fault \<Rightarrow> Fault
            | TapeEnd \<Rightarrow> TapeEnd)))"

text \<open>
  The equations of the loops are recursive and unconditional: they are unfolded by hand.
\<close>

declare fill_rows.simps [simp del]
declare scatter_edges.simps [simp del]
declare scatter.simps [simp del]
declare combine.simps [simp del]
declare power_iteration.simps [simp del]
declare select_edge.simps [simp del]
declare walk.simps [simp del]
declare walks.simps [simp del]
declare normalize_scores.simps [simp del]

section \<open>Example inputs\<close>

text \<open>The three-node cycle \<open>0 \<rightarrow> 1 \<rightarrow> 2 \<rightarrow> 0\<close> without weights, as a file and as a graph.\<close>

definition cycle3_file :: "input_line list" where
  "cycle3_file = [EdgeLine ''0'' ''1'' None, EdgeLine ''1'' ''2'' None, EdgeLine ''2'' ''0'' None]"

definition cycle3 :: CSRGraph where
  "cycle3 =
     \<lparr>num_nodes = 3, num_edges = 3, row_ptr = [0, 1, 2, 3], col_indices = [1, 2, 0],
      edge_weights = [1, 1, 1], out_weight_sum = [1, 1, 1]\<rparr>"

section \<open>Well-formed graphs and the sums of a sweep\<close>

text \<open>The indices of the outgoing edges of node \<open>u\<close>.\<close>

definition row_edges :: "CSRGraph \<Rightarrow> nat \<Rightarrow> nat list" where
  "row_edges g u = [nat (row_ptr g ! u)..<nat (row_ptr g ! Suc u)]"

text \<open>
  What the engines need to stay inside the vectors of the graph: the sizes, the row
  pointers, and destinations that are nodes.
\<close>

definition csr_shape :: "CSRGraph \<Rightarrow> bool" where
  "csr_shape g \<longleftrightarrow>
     0 \<le> num_nodes g \<and>
     length (row_ptr g) = nat (num_nodes g) + 1 \<and>
     length (out_weight_sum g) = nat (num_nodes g) \<and>
     length (col_indices g) = length (edge_weights g) \<and>
     sorted (row_ptr g) \<and>
     row_ptr g ! 0 = 0 \<and>
     row_ptr g ! nat (num_nodes g) = int (length (edge_weights g)) \<and>
     (\<forall>v \<in> set (col_indices g). 0 \<le> v \<and> v < num_nodes g)"

text \<open>
  What holds of every graph that the loader builds: the shape, the edge count, positive
  weights, and \<^verbatim>\<open>out_weight_sum\<close> as the sum of the weights of the row.
\<close>

definition csr_ok :: "CSRGraph \<Rightarrow> bool" where
  "csr_ok g \<longleftrightarrow>
     csr_shape g \<and>
     num_edges g = int (length (edge_weights g)) \<and>
     (\<forall>w \<in> set (edge_weights g). 0 < w) \<and>
     (\<forall>u < nat (num_nodes g).
        out_weight_sum g ! u = (\<Sum>k\<leftarrow>row_edges g u. edge_weights g ! k))"

text \<open>The effect of one edge and of one node in the scatter phase.\<close>

definition edge_step :: "CSRGraph \<Rightarrow> real list \<Rightarrow> nat \<Rightarrow> real list \<Rightarrow> nat \<Rightarrow> real list" where
  "edge_step g r u rn k =
     rn[nat (col_indices g ! k) :=
          rn ! nat (col_indices g ! k) + r ! u * (edge_weights g ! k / out_weight_sum g ! u)]"

definition node_step :: "CSRGraph \<Rightarrow> real list \<Rightarrow> real list \<times> real \<Rightarrow> nat \<Rightarrow> real list \<times> real" where
  "node_step g r s u =
     (if out_weight_sum g ! u > 0
      then (foldl (edge_step g r u) (fst s) (row_edges g u), snd s)
      else (fst s, snd s + r ! u))"

text \<open>
  The sums of one sweep, as the specification states them. \<open>edge_flow g r u v k\<close> is
  what edge \<open>k\<close> of node \<open>u\<close> brings to node \<open>v\<close>, \<open>inflow g r v\<close> is what the scatter
  phase accumulates in \<^verbatim>\<open>r_new[v]\<close>: the sum of \<open>r[u] * (w / out_weight_sum[u])\<close>
  over the outgoing edges to \<open>v\<close> of every node \<open>u\<close> with \<open>out_weight_sum[u] > 0\<close>.
\<close>

definition edge_flow :: "CSRGraph \<Rightarrow> real list \<Rightarrow> nat \<Rightarrow> nat \<Rightarrow> nat \<Rightarrow> real" where
  "edge_flow g r u v k =
     (if col_indices g ! k = int v then r ! u * (edge_weights g ! k / out_weight_sum g ! u) else 0)"

definition node_flow :: "CSRGraph \<Rightarrow> real list \<Rightarrow> nat \<Rightarrow> nat \<Rightarrow> real" where
  "node_flow g r v u =
     (if out_weight_sum g ! u > 0 then (\<Sum>k\<leftarrow>row_edges g u. edge_flow g r u v k) else 0)"

definition inflow :: "CSRGraph \<Rightarrow> real list \<Rightarrow> nat \<Rightarrow> real" where
  "inflow g r v =
     (\<Sum>u\<leftarrow>[0..<nat (num_nodes g)].
        if out_weight_sum g ! u > 0 then (\<Sum>k\<leftarrow>row_edges g u. edge_flow g r u v k) else 0)"

text \<open>
  The mass that the scatter phase adds to \<^verbatim>\<open>dead_mass\<close>: the source takes the
  \<^verbatim>\<open>else\<close> branch of \<^verbatim>\<open>out_weight_sum[u] > 0\<close>; the specification names the
  dangling nodes, those with \<open>out_weight_sum[u] = 0\<close>.
\<close>

definition dead_sum :: "CSRGraph \<Rightarrow> real list \<Rightarrow> real" where
  "dead_sum g r =
     (\<Sum>u\<leftarrow>[0..<nat (num_nodes g)]. if out_weight_sum g ! u > 0 then 0 else r ! u)"

definition dangling_mass :: "CSRGraph \<Rightarrow> real list \<Rightarrow> real" where
  "dangling_mass g r =
     (\<Sum>u\<leftarrow>[0..<nat (num_nodes g)]. if out_weight_sum g ! u = 0 then r ! u else 0)"

text \<open>The value \<^verbatim>\<open>val\<close> of the combine phase.\<close>

definition combine_val :: "real \<Rightarrow> real list \<Rightarrow> real \<Rightarrow> real list \<Rightarrow> nat \<Rightarrow> real" where
  "combine_val alpha p dead rn i =
     (1 - alpha) * rn ! i + alpha * p ! i + (1 - alpha) * dead * p ! i"

text \<open>The chain \<open>0 \<rightarrow> 1 \<rightarrow> 2\<close> with weights 1 and 2; node 2 has no outgoing edge.\<close>

definition chain3 :: CSRGraph where
  "chain3 =
     \<lparr>num_nodes = 3, num_edges = 2, row_ptr = [0, 1, 2, 2], col_indices = [1, 2],
      edge_weights = [1, 2], out_weight_sum = [1, 2, 0]\<rparr>"

section \<open>The iterates of the power iteration\<close>

text \<open>
  \<open>sweeps g alpha p n\<close> is the vector \<^verbatim>\<open>r\<close> after \<open>n\<close> sweeps from \<open>r = p\<close>, and
  \<open>sweep_diff g alpha p n\<close> is the L1 difference \<^verbatim>\<open>diff\<close> that sweep number \<open>n + 1\<close>
  computes.
\<close>

fun sweeps :: "CSRGraph \<Rightarrow> real \<Rightarrow> real list \<Rightarrow> nat \<Rightarrow> real list option" where
  "sweeps g alpha p 0 = Some p"
| "sweeps g alpha p (Suc n) =
     do { r \<leftarrow> sweeps g alpha p n; (r', diff) \<leftarrow> sweep g alpha p r; Some r' }"

definition sweep_diff :: "CSRGraph \<Rightarrow> real \<Rightarrow> real list \<Rightarrow> nat \<Rightarrow> real option" where
  "sweep_diff g alpha p n =
     do { r \<leftarrow> sweeps g alpha p n; (r', diff) \<leftarrow> sweep g alpha p r; Some diff }"

text \<open>The two-node cycle \<open>0 \<rightarrow> 1 \<rightarrow> 0\<close>.\<close>

definition cycle2 :: CSRGraph where
  "cycle2 =
     \<lparr>num_nodes = 2, num_edges = 2, row_ptr = [0, 1, 2], col_indices = [1, 0],
      edge_weights = [1, 1], out_weight_sum = [1, 1]\<rparr>"

section \<open>The graph of an edge list\<close>

text \<open>
  What the loader computes, stated on lists: \<open>row_of es u\<close> is the adjacency list of node
  \<open>u\<close>, the destination and weight of the edges of \<open>es\<close> with source \<open>u\<close>, in the order of
  \<open>es\<close>; \<open>offsets adj i\<close> is the number of edges of the first \<open>i\<close> rows and \<open>rowsum\<close> the
  sum of the weights of a row.
\<close>

definition row_of :: "Edge list \<Rightarrow> nat \<Rightarrow> (int \<times> real) list" where
  "row_of es u = map (\<lambda>e. (e_v e, e_w e)) (filter (\<lambda>e. e_u e = int u) es)"

definition offsets :: "(int \<times> real) list list \<Rightarrow> nat \<Rightarrow> int" where
  "offsets adj i = int (length (concat (take i adj)))"

definition rowsum :: "(int \<times> real) list \<Rightarrow> real" where
  "rowsum row = sum_list (map snd row)"

text \<open>The ids of a mapper are indices of its names; the ids of an edge list are below \<open>n\<close>.\<close>

definition mapper_ok :: "NodeMapper \<Rightarrow> bool" where
  "mapper_ok m \<longleftrightarrow>
     (\<forall>name i. name_to_id m name = Some i \<longrightarrow> 0 \<le> i \<and> i < int (length (id_to_name m)))"

definition edges_below :: "int \<Rightarrow> Edge list \<Rightarrow> bool" where
  "edges_below n es \<longleftrightarrow> (\<forall>e\<in>set es. 0 \<le> e_u e \<and> e_u e < n \<and> 0 \<le> e_v e \<and> e_v e < n)"

text \<open>The third columns of the edge lines of a file, in the order of the file.\<close>

fun edge_columns :: "input_line list \<Rightarrow> real option list" where
  "edge_columns [] = []"
| "edge_columns (Skipped # ls) = edge_columns ls"
| "edge_columns (EdgeLine u_str v_str w_in # ls) = w_in # edge_columns ls"

text \<open>
  The edge lines of a file in their order, \<open>line_edge m l\<close>, the edge that the ids of
  mapper \<open>m\<close> give to the edge line \<open>l\<close>, and \<open>line_row m ls u\<close>, the destination and
  the sanitized weight of every edge line of \<open>ls\<close> whose source name has the id \<open>u\<close> in
  \<open>m\<close>, each line with its own weight and in the order of the file. \<open>keeps_ids m m'\<close>
  says that every name known to \<open>m\<close> has the same id in \<open>m'\<close>.
\<close>

fun edge_lines :: "input_line list \<Rightarrow> (string \<times> string \<times> real option) list" where
  "edge_lines [] = []"
| "edge_lines (Skipped # ls) = edge_lines ls"
| "edge_lines (EdgeLine u_str v_str w_in # ls) = (u_str, v_str, w_in) # edge_lines ls"

definition line_edge :: "NodeMapper \<Rightarrow> string \<times> string \<times> real option \<Rightarrow> Edge" where
  "line_edge m l =
     (case l of (u_str, v_str, w_in) \<Rightarrow>
        \<lparr>e_u = fst (getId m u_str), e_v = fst (getId m v_str), e_w = line_weight w_in\<rparr>)"

definition keeps_ids :: "NodeMapper \<Rightarrow> NodeMapper \<Rightarrow> bool" where
  "keeps_ids m m' \<longleftrightarrow> (\<forall>n j. name_to_id m n = Some j \<longrightarrow> name_to_id m' n = Some j)"

definition line_row :: "NodeMapper \<Rightarrow> input_line list \<Rightarrow> nat \<Rightarrow> (int option \<times> real) list" where
  "line_row m ls u =
     map (\<lambda>l. (name_to_id m (fst (snd l)), line_weight (snd (snd l))))
       (filter (\<lambda>l. name_to_id m (fst l) = Some (int u)) (edge_lines ls))"

text \<open>
  A file with a skipped line, an edge without weight and the weights 0, -2.5 and 3, and
  the graph that the loader builds from it.
\<close>

definition weights_file :: "input_line list" where
  "weights_file =
     [EdgeLine ''a'' ''b'' None, Skipped, EdgeLine ''b'' ''c'' (Some 0),
      EdgeLine ''c'' ''a'' (Some (- 5 / 2)), EdgeLine ''a'' ''c'' (Some 3)]"

definition weights_graph :: CSRGraph where
  "weights_graph =
     \<lparr>num_nodes = 3, num_edges = 4, row_ptr = [0, 2, 3, 4], col_indices = [1, 2, 2, 0],
      edge_weights = [1, 3, 1 / 10000, 5 / 2], out_weight_sum = [4, 1 / 10000, 5 / 2]\<rparr>"

section \<open>The first edge that a draw selects\<close>

text \<open>
  \<open>cum_weight g u k\<close> is the running cumulative weight of the scan of the row of node
  \<open>u\<close> once it has added the weight of edge \<open>k\<close>, and \<open>first_hit g target u\<close> is the first
  edge of the row at which this weight reaches or exceeds \<open>target\<close>, if there is one.
\<close>

definition cum_weight :: "CSRGraph \<Rightarrow> nat \<Rightarrow> nat \<Rightarrow> real" where
  "cum_weight g u k = (\<Sum>j\<leftarrow>[nat (row_ptr g ! u)..<Suc k]. edge_weights g ! j)"

definition first_hit :: "CSRGraph \<Rightarrow> real \<Rightarrow> nat \<Rightarrow> nat option" where
  "first_hit g target u = find (\<lambda>k. target \<le> cum_weight g u k) (row_edges g u)"

text \<open>
  A graph whose \<^verbatim>\<open>out_weight_sum[0]\<close> is above the sum of the weights of row 0, as
  a sum rounded upwards would be.
\<close>

definition loose_graph :: CSRGraph where
  "loose_graph = weights_graph\<lparr>out_weight_sum := [5, 1 / 10000, 5 / 2]\<rparr>"

section \<open>Basic facts\<close>

lemma vec_at_Some: "vec_at xs i = Some x \<longleftrightarrow> 0 \<le> i \<and> i < int (length xs) \<and> x = xs ! nat i"
  by (auto simp: vec_at_def)

lemma vec_put_Some:
  "vec_put xs i x = Some ys \<longleftrightarrow> 0 \<le> i \<and> i < int (length xs) \<and> ys = xs[nat i := x]"
  by (auto simp: vec_put_def)

lemma vec_at_in: "0 \<le> i \<Longrightarrow> i < int (length xs) \<Longrightarrow> vec_at xs i = Some (xs ! nat i)"
  by (simp add: vec_at_def)

lemma vec_put_in: "0 \<le> i \<Longrightarrow> i < int (length xs) \<Longrightarrow> vec_put xs i x = Some (xs[nat i := x])"
  by (simp add: vec_put_def)

section \<open>MonteCarloEngine with an empty seed set\<close>

text \<open>
  Claim C9. \<^verbatim>\<open>MonteCarloEngine::compute\<close> called with an empty seed set returns a
  score vector of length \<open>N\<close> that is zero everywhere, with 0 as the number of walks.
  No walk is made and nothing is drawn: the random source comes back as it was given,
  whatever it is (also a source that describes no draw at all, with which any draw would
  end the run in \<open>TapeEnd\<close>).
\<close>

theorem mc_empty_seeds:
  "0 \<le> num_nodes graph \<Longrightarrow>
   MonteCarloEngine_compute clock gen graph [] alpha total_walks =
     Done (\<lparr>scores = replicate (nat (num_nodes graph)) 0, duration_us = 0, iterations = 0\<rparr>, gen)"
  by (simp add: MonteCarloEngine_compute_def)

theorem mc_empty_seeds_witness:
  "0 \<le> num_nodes cycle3 \<and>
   MonteCarloEngine_compute (0, 7) \<lparr>int_draws = [], real_draws = []\<rparr> cycle3 [] (15 / 100) 1500 =
     Done (\<lparr>scores = [0, 0, 0], duration_us = 0, iterations = 0\<rparr>,
           \<lparr>int_draws = [], real_draws = []\<rparr>)"
  using mc_empty_seeds [of cycle3 "(0, 7)" "\<lparr>int_draws = [], real_draws = []\<rparr>" "15 / 100" 1500]
  by (simp add: cycle3_def numeral_3_eq_3)

section \<open>Determinism of PPREngine\<close>


section \<open>The scatter phase as a fold\<close>

lemma vec_at_int: "k < length xs \<Longrightarrow> vec_at xs (int k) = Some (xs ! k)"
  by (simp add: vec_at_def)

lemma vec_put_int: "k < length xs \<Longrightarrow> vec_put xs (int k) x = Some (xs[k := x])"
  by (simp add: vec_put_def)

lemma length_edge_step [simp]: "length (edge_step g r u rn k) = length rn"
  by (simp add: edge_step_def)

lemma scatter_edges_fold:
  assumes "Suc u < length (row_ptr g)" and "row_ptr g ! Suc u = int h"
    and "h \<le> length (col_indices g)" and "h \<le> length (edge_weights g)"
    and "u < length r" and "u < length (out_weight_sum g)"
    and "\<forall>j<h. 0 \<le> col_indices g ! j \<and> nat (col_indices g ! j) < length rn"
    and "k \<le> h"
  shows "scatter_edges g r (int u) (int k) rn = Some (foldl (edge_step g r u) rn [k..<h])"
proof -
  have hi: "vec_at (row_ptr g) (int u + 1) = Some (int h)"
    using assms(1,2) vec_at_int [of "Suc u" "row_ptr g"] by (simp add: add.commute)
  show ?thesis
    using assms(7,8)
  proof (induction "h - k" arbitrary: k rn)
    case 0
    then have "k = h" by simp
    then show ?case
      by (subst scatter_edges.simps) (simp add: hi)
  next
    case (Suc n)
    then have kh: "k < h" by simp
    let ?rn = "edge_step g r u rn k"
    have rng: "0 \<le> col_indices g ! k" "col_indices g ! k < int (length rn)"
      using Suc.prems kh by auto
    have ih: "scatter_edges g r (int u) (int (Suc k)) ?rn =
                Some (foldl (edge_step g r u) ?rn [Suc k..<h])"
      using Suc.hyps Suc.prems kh by (intro Suc.hyps(1)) auto
    have "scatter_edges g r (int u) (int k) rn = scatter_edges g r (int u) (int k + 1) ?rn"
      using kh assms(3-6) rng
      by (subst scatter_edges.simps)
         (simp add: hi vec_at_int vec_at_in vec_put_in edge_step_def)
    also have "\<dots> = Some (foldl (edge_step g r u) ?rn [Suc k..<h])"
      using ih by (simp add: add.commute)
    finally show ?case using kh by (simp add: upt_conv_Cons)
  qed
qed


lemma shape_row:
  assumes "csr_shape g" and "u < nat (num_nodes g)"
  shows "0 \<le> row_ptr g ! u" and "row_ptr g ! u \<le> row_ptr g ! Suc u"
    and "row_ptr g ! Suc u \<le> int (length (edge_weights g))"
proof -
  let ?N = "nat (num_nodes g)"
  have s: "sorted (row_ptr g)" and len: "length (row_ptr g) = ?N + 1"
    and z: "row_ptr g ! 0 = 0" and e: "row_ptr g ! ?N = int (length (edge_weights g))"
    using assms(1) by (auto simp: csr_shape_def)
  have "row_ptr g ! 0 \<le> row_ptr g ! u"
    using s len assms(2) by (intro sorted_nth_mono) auto
  then show "0 \<le> row_ptr g ! u" using z by simp
  show "row_ptr g ! u \<le> row_ptr g ! Suc u"
    using s len assms(2) by (intro sorted_nth_mono) auto
  have "row_ptr g ! Suc u \<le> row_ptr g ! ?N"
    using s len assms(2) by (intro sorted_nth_mono) auto
  then show "row_ptr g ! Suc u \<le> int (length (edge_weights g))" using e by simp
qed

lemma shape_col:
  assumes "csr_shape g" and "k < length (col_indices g)"
  shows "0 \<le> col_indices g ! k" and "nat (col_indices g ! k) < nat (num_nodes g)"
  using assms by (auto simp: csr_shape_def dest!: bspec [OF _ nth_mem [OF assms(2)]])

lemma length_node_step [simp]: "length (fst (node_step g r s u)) = length (fst s)"
proof -
  have "length (foldl (edge_step g r u) rn ks) = length rn" for rn ks
    by (induction ks arbitrary: rn) simp_all
  then show ?thesis by (simp add: node_step_def)
qed

lemma length_foldl_node_step [simp]:
  "length (fst (foldl (node_step g r) s us)) = length (fst s)"
  by (induction us arbitrary: s) simp_all

lemma scatter_fold:
  assumes "csr_shape g" and "length r = nat (num_nodes g)"
    and "length rn = nat (num_nodes g)" and "u \<le> nat (num_nodes g)"
  shows "scatter g r (num_nodes g) (int u) rn dead =
           Some (foldl (node_step g r) (rn, dead) [u..<nat (num_nodes g)])"
  using assms(3,4)
proof (induction "nat (num_nodes g) - u" arbitrary: u rn dead)
  case 0
  then have "\<not> int u < num_nodes g" by linarith
  then show ?case
    using 0 by (subst scatter.simps) simp
next
  case (Suc n)
  let ?N = "nat (num_nodes g)"
  from Suc have uN: "u < ?N" by simp
  have lens: "length (out_weight_sum g) = ?N" "length (row_ptr g) = ?N + 1"
    "length (col_indices g) = length (edge_weights g)"
    using assms(1) by (auto simp: csr_shape_def)
  note row = shape_row [OF assms(1) uN]
  have cond: "int u < num_nodes g" using uN by simp
  show ?case
  proof (cases "out_weight_sum g ! u > 0")
    case True
    define h where "h = nat (row_ptr g ! Suc u)"
    define lo where "lo = nat (row_ptr g ! u)"
    have h: "row_ptr g ! Suc u = int h" and lo: "row_ptr g ! u = int lo" and "lo \<le> h"
      and hE: "h \<le> length (edge_weights g)"
      using row by (auto simp: h_def lo_def)
    have cols: "\<forall>j<h. 0 \<le> col_indices g ! j \<and> nat (col_indices g ! j) < length rn"
    proof (intro allI impI)
      fix j assume "j < h"
      then have jl: "j < length (col_indices g)" using hE lens by simp
      from shape_col [OF assms(1) jl]
      show "0 \<le> col_indices g ! j \<and> nat (col_indices g ! j) < length rn"
        using Suc.prems(1) by simp
    qed
    have se: "scatter_edges g r (int u) (int lo) rn = Some (foldl (edge_step g r u) rn [lo..<h])"
      using uN lens hE h cols \<open>lo \<le> h\<close> assms(2)
      by (intro scatter_edges_fold) auto
    have "scatter g r (num_nodes g) (int u) rn dead =
            scatter g r (num_nodes g) (int u + 1) (foldl (edge_step g r u) rn [lo..<h]) dead"
      using cond True uN lens
      by (subst scatter.simps) (simp add: vec_at_int lo se)
    also have "\<dots> = Some (foldl (node_step g r) (foldl (edge_step g r u) rn [lo..<h], dead) [Suc u..<?N])"
    proof -
      have len: "length (foldl (edge_step g r u) rn [lo..<h]) = ?N"
        using length_node_step [of g r "(rn, dead)" u] True Suc.prems
        by (simp add: node_step_def row_edges_def h_def lo_def)
      show ?thesis
        using Suc.hyps(1) [of "Suc u" "foldl (edge_step g r u) rn [lo..<h]" dead] Suc.hyps(2) uN len
        by (simp add: add.commute)
    qed
    finally show ?thesis
      using uN True by (simp add: upt_conv_Cons node_step_def row_edges_def h_def lo_def)
  next
    case False
    have "scatter g r (num_nodes g) (int u) rn dead =
            scatter g r (num_nodes g) (int u + 1) rn (dead + r ! u)"
      using cond False uN lens assms(2)
      by (subst scatter.simps) (simp add: vec_at_int)
    also have "\<dots> = Some (foldl (node_step g r) (rn, dead + r ! u) [Suc u..<?N])"
      using Suc.hyps(1) [of "Suc u" rn "dead + r ! u"] Suc.hyps(2) uN Suc.prems
      by (simp add: add.commute)
    finally show ?thesis
      using uN False by (simp add: upt_conv_Cons node_step_def)
  qed
qed

section \<open>The sums of the scatter phase and the combine phase\<close>

lemma foldl_edge_step_nth:
  assumes "\<forall>k\<in>set ks. 0 \<le> col_indices g ! k \<and> nat (col_indices g ! k) < length rn"
    and "v < length rn"
  shows "foldl (edge_step g r u) rn ks ! v = rn ! v + (\<Sum>k\<leftarrow>ks. edge_flow g r u v k)"
  using assms
proof (induction ks arbitrary: rn)
  case Nil
  then show ?case by simp
next
  case (Cons k ks)
  have c: "0 \<le> col_indices g ! k" "nat (col_indices g ! k) < length rn"
    using Cons.prems by auto
  have step: "edge_step g r u rn k ! v = rn ! v + edge_flow g r u v k"
    using c Cons.prems(2) by (auto simp: edge_step_def edge_flow_def)
  have "foldl (edge_step g r u) (edge_step g r u rn k) ks ! v =
          edge_step g r u rn k ! v + (\<Sum>k\<leftarrow>ks. edge_flow g r u v k)"
    using Cons.prems by (intro Cons.IH) auto
  then show ?case by (simp add: step)
qed

lemma row_edges_cols:
  assumes "csr_shape g" and "u < nat (num_nodes g)" and "k \<in> set (row_edges g u)"
  shows "0 \<le> col_indices g ! k \<and> nat (col_indices g ! k) < nat (num_nodes g)"
proof -
  have "k < nat (row_ptr g ! Suc u)" using assms(3) by (simp add: row_edges_def)
  then have "k < length (col_indices g)"
    using shape_row(3) [OF assms(1,2)] assms(1) by (simp add: csr_shape_def)
  then show ?thesis using shape_col [OF assms(1)] by simp
qed

lemma node_step_nth:
  assumes "csr_shape g" and "u < nat (num_nodes g)" and "length (fst s) = nat (num_nodes g)"
    and "v < nat (num_nodes g)"
  shows "fst (node_step g r s u) ! v = fst s ! v + node_flow g r v u"
    and "snd (node_step g r s u) = snd s + (if out_weight_sum g ! u > 0 then 0 else r ! u)"
proof -
  show "fst (node_step g r s u) ! v = fst s ! v + node_flow g r v u"
  proof (cases "out_weight_sum g ! u > 0")
    case True
    have "foldl (edge_step g r u) (fst s) (row_edges g u) ! v =
            fst s ! v + (\<Sum>k\<leftarrow>row_edges g u. edge_flow g r u v k)"
      using row_edges_cols [OF assms(1,2)] assms(3,4) by (intro foldl_edge_step_nth) auto
    then show ?thesis using True by (simp add: node_step_def node_flow_def)
  next
    case False
    then show ?thesis by (simp add: node_step_def node_flow_def)
  qed
  show "snd (node_step g r s u) = snd s + (if out_weight_sum g ! u > 0 then 0 else r ! u)"
    by (simp add: node_step_def)
qed

lemma foldl_node_step_nth:
  assumes "csr_shape g" and "\<forall>u\<in>set us. u < nat (num_nodes g)"
    and "length (fst s) = nat (num_nodes g)" and "v < nat (num_nodes g)"
  shows "fst (foldl (node_step g r) s us) ! v = fst s ! v + (\<Sum>u\<leftarrow>us. node_flow g r v u)"
    and "snd (foldl (node_step g r) s us) =
           snd s + (\<Sum>u\<leftarrow>us. if out_weight_sum g ! u > 0 then 0 else r ! u)"
  using assms(2,3)
proof (induction us arbitrary: s)
  case Nil
  case 1 show ?case by simp
  case 2 show ?case by simp
next
  case (Cons u us)
  case 1
  have u: "u < nat (num_nodes g)" using 1(1) by simp
  have "fst (foldl (node_step g r) (node_step g r s u) us) ! v =
          fst (node_step g r s u) ! v + (\<Sum>u\<leftarrow>us. node_flow g r v u)"
    using 1 by (intro Cons.IH(1)) auto
  then show ?case
    using node_step_nth(1) [OF assms(1) u 1(2) assms(4)] by simp
next
  case (Cons u us)
  case 2
  have u: "u < nat (num_nodes g)" using 2(1) by simp
  have "snd (foldl (node_step g r) (node_step g r s u) us) =
          snd (node_step g r s u) + (\<Sum>u\<leftarrow>us. if out_weight_sum g ! u > 0 then 0 else r ! u)"
    using 2 by (intro Cons.IH(2)) auto
  then show ?case
    using node_step_nth(2) [OF assms(1) u 2(2) assms(4)] by simp
qed

lemma combine_result:
  assumes "length p = N" and "length r = N"
  shows "length rn = N \<Longrightarrow> i \<le> N \<Longrightarrow>
         \<exists>rn' d. combine alpha p r dead (int N) (int i) rn diff = Some (rn', d) \<and>
           length rn' = N \<and>
           (\<forall>j<N. rn' ! j = (if i \<le> j then combine_val alpha p dead rn j else rn ! j)) \<and>
           d = diff + (\<Sum>j\<leftarrow>[i..<N]. \<bar>combine_val alpha p dead rn j - r ! j\<bar>)"
proof (induction "N - i" arbitrary: i rn diff)
  case 0
  then have "i = N" by simp
  then show ?case using 0 by (subst combine.simps) simp
next
  case (Suc n)
  then have iN: "i < N" by simp
  let ?val = "combine_val alpha p dead rn i"
  let ?rn = "rn[i := ?val]"
  have unf: "combine alpha p r dead (int N) (int i) rn diff =
          combine alpha p r dead (int N) (int (Suc i)) ?rn (diff + \<bar>?val - r ! i\<bar>)"
    using iN assms Suc.prems
    by (subst combine.simps)
       (simp add: vec_at_int vec_put_int combine_val_def Let_def add.commute)
  have n: "n = N - Suc i" using Suc.hyps(2) by simp
  have "\<exists>rn' d. combine alpha p r dead (int N) (int (Suc i)) ?rn (diff + \<bar>?val - r ! i\<bar>) = Some (rn', d) \<and>
           length rn' = N \<and>
           (\<forall>j<N. rn' ! j = (if Suc i \<le> j then combine_val alpha p dead ?rn j else ?rn ! j)) \<and>
           d = (diff + \<bar>?val - r ! i\<bar>) + (\<Sum>j\<leftarrow>[Suc i..<N]. \<bar>combine_val alpha p dead ?rn j - r ! j\<bar>)"
    by (rule Suc.hyps(1) [OF n]) (use iN Suc.prems in auto)
  then obtain rn' d where ih:
    "combine alpha p r dead (int N) (int (Suc i)) ?rn (diff + \<bar>?val - r ! i\<bar>) = Some (rn', d)"
    "length rn' = N"
    "\<forall>j<N. rn' ! j = (if Suc i \<le> j then combine_val alpha p dead ?rn j else ?rn ! j)"
    "d = (diff + \<bar>?val - r ! i\<bar>) + (\<Sum>j\<leftarrow>[Suc i..<N]. \<bar>combine_val alpha p dead ?rn j - r ! j\<bar>)"
    by blast
  have same: "combine_val alpha p dead ?rn j = combine_val alpha p dead rn j" if "Suc i \<le> j" for j
    using that by (simp add: combine_val_def)
  have nth: "\<forall>j<N. rn' ! j = (if i \<le> j then combine_val alpha p dead rn j else rn ! j)"
  proof (intro allI impI)
    fix j assume "j < N"
    consider "j < i" | "j = i" | "Suc i \<le> j" by linarith
    then show "rn' ! j = (if i \<le> j then combine_val alpha p dead rn j else rn ! j)"
      using ih(3) \<open>j < N\<close> Suc.prems(1) by cases (auto simp: same)
  qed
  have "(\<Sum>j\<leftarrow>[Suc i..<N]. \<bar>combine_val alpha p dead ?rn j - r ! j\<bar>) =
        (\<Sum>j\<leftarrow>[Suc i..<N]. \<bar>combine_val alpha p dead rn j - r ! j\<bar>)"
    by (intro arg_cong [where f = sum_list] map_cong) (auto simp: same)
  then have "d = diff + (\<Sum>j\<leftarrow>[i..<N]. \<bar>combine_val alpha p dead rn j - r ! j\<bar>)"
    using ih(4) iN by (simp add: upt_conv_Cons)
  then show ?case using unf ih(1,2) nth by simp
qed

lemma ok_shape: "csr_ok g \<Longrightarrow> csr_shape g"
  by (simp add: csr_ok_def)

lemma row_edges_bound:
  assumes "csr_shape g" and "u < nat (num_nodes g)" and "k \<in> set (row_edges g u)"
  shows "k < length (edge_weights g)"
proof -
  have "k < nat (row_ptr g ! Suc u)" using assms(3) by (simp add: row_edges_def)
  then show ?thesis using shape_row(3) [OF assms(1,2)] by linarith
qed

lemma ok_out_weight_sum:
  assumes "csr_ok g" and "u < nat (num_nodes g)"
  shows "0 \<le> out_weight_sum g ! u"
    and "out_weight_sum g ! u = 0 \<longleftrightarrow> row_edges g u = []"
proof -
  have sum: "out_weight_sum g ! u = (\<Sum>k\<leftarrow>row_edges g u. edge_weights g ! k)"
    using assms by (simp add: csr_ok_def)
  have pos: "0 < edge_weights g ! k" if "k \<in> set (row_edges g u)" for k
    using row_edges_bound [OF ok_shape [OF assms(1)] assms(2) that] assms(1)
    by (simp add: csr_ok_def)
  show "0 \<le> out_weight_sum g ! u"
    unfolding sum using pos by (intro sum_list_nonneg) (auto intro: less_imp_le)
  show "out_weight_sum g ! u = 0 \<longleftrightarrow> row_edges g u = []"
  proof
    assume z: "out_weight_sum g ! u = 0"
    show "row_edges g u = []"
    proof (rule ccontr)
      assume "row_edges g u \<noteq> []"
      then obtain k where k: "k \<in> set (row_edges g u)" by (cases "row_edges g u") auto
      have "(\<Sum>k\<leftarrow>row_edges g u. edge_weights g ! k) = 0 \<longleftrightarrow>
            (\<forall>x\<in>set (map (\<lambda>k. edge_weights g ! k) (row_edges g u)). x = 0)"
        using pos by (intro sum_list_nonneg_eq_0_iff) (auto intro: less_imp_le)
      then have "edge_weights g ! k = 0" using z sum k by simp
      then show False using pos [OF k] by simp
    qed
  next
    assume "row_edges g u = []"
    then show "out_weight_sum g ! u = 0" using sum by simp
  qed
qed

lemma scatter_result:
  assumes "csr_shape g" and "length r = nat (num_nodes g)"
  shows "\<exists>rn0. scatter g r (num_nodes g) 0 (replicate (nat (num_nodes g)) 0) 0 =
                  Some (rn0, dead_sum g r) \<and>
               length rn0 = nat (num_nodes g) \<and>
               (\<forall>v<nat (num_nodes g). rn0 ! v = inflow g r v)"
proof -
  let ?N = "nat (num_nodes g)"
  let ?s = "foldl (node_step g r) (replicate ?N 0, 0) [0..<?N]"
  have sc: "scatter g r (num_nodes g) (int 0) (replicate ?N 0) 0 = Some ?s"
    using assms by (intro scatter_fold) auto
  have len: "length (fst ?s) = ?N" by simp
  have nth: "fst ?s ! v = inflow g r v" if "v < ?N" for v
    using foldl_node_step_nth(1) [OF assms(1), of "[0..<?N]" "(replicate ?N 0, 0)" v r] that
    by (simp add: inflow_def node_flow_def)
  have dead: "snd ?s = dead_sum g r"
  proof (cases "?N = 0")
    case True
    then show ?thesis by (simp add: dead_sum_def)
  next
    case False
    then have "0 < ?N" by simp
    from foldl_node_step_nth(2) [OF assms(1) _ _ this, of "[0..<?N]" "(replicate ?N 0, 0)" r]
    show ?thesis by (simp add: dead_sum_def)
  qed
  have "?s = (fst ?s, dead_sum g r)" using dead by (simp add: prod_eq_iff)
  then show ?thesis using sc len nth by (intro exI [of _ "fst ?s"]) simp
qed

lemma sweep_result:
  assumes "csr_shape g" and "length r = nat (num_nodes g)" and "length p = nat (num_nodes g)"
  shows "\<exists>rn d. sweep g alpha p r = Some (rn, d) \<and>
               length rn = nat (num_nodes g) \<and>
               (\<forall>i<nat (num_nodes g).
                  rn ! i = (1 - alpha) * inflow g r i + alpha * p ! i
                             + (1 - alpha) * dead_sum g r * p ! i) \<and>
               d = (\<Sum>i\<leftarrow>[0..<nat (num_nodes g)]. \<bar>rn ! i - r ! i\<bar>)"
proof -
  let ?N = "nat (num_nodes g)"
  have N: "int ?N = num_nodes g" using assms(1) by (simp add: csr_shape_def)
  obtain rn0 where sc: "scatter g r (num_nodes g) 0 (replicate ?N 0) 0 = Some (rn0, dead_sum g r)"
    and len0: "length rn0 = ?N" and nth0: "\<forall>v<?N. rn0 ! v = inflow g r v"
    using scatter_result [OF assms(1,2)] by blast
  obtain rn d where co: "combine alpha p r (dead_sum g r) (int ?N) (int 0) rn0 0 = Some (rn, d)"
    and len: "length rn = ?N"
    and nth: "\<forall>j<?N. rn ! j = (if 0 \<le> j then combine_val alpha p (dead_sum g r) rn0 j else rn0 ! j)"
    and d: "d = 0 + (\<Sum>j\<leftarrow>[0..<?N]. \<bar>combine_val alpha p (dead_sum g r) rn0 j - r ! j\<bar>)"
    using combine_result [OF assms(3,2) len0, of 0 alpha "dead_sum g r" 0] by blast
  have sw: "sweep g alpha p r = Some (rn, d)"
    using sc co N by (simp add: sweep_def)
  have val: "rn ! i = (1 - alpha) * inflow g r i + alpha * p ! i + (1 - alpha) * dead_sum g r * p ! i"
    if "i < ?N" for i
    using nth nth0 that by (simp add: combine_val_def)
  have "(\<Sum>j\<leftarrow>[0..<?N]. \<bar>combine_val alpha p (dead_sum g r) rn0 j - r ! j\<bar>) =
        (\<Sum>i\<leftarrow>[0..<?N]. \<bar>rn ! i - r ! i\<bar>)"
    using nth by (intro arg_cong [where f = sum_list] map_cong) auto
  then show ?thesis using sw len val d by simp
qed

lemma dead_sum_dangling:
  assumes "csr_ok g"
  shows "dead_sum g r = dangling_mass g r"
proof -
  have "(if out_weight_sum g ! u > 0 then 0 else r ! u) =
        (if out_weight_sum g ! u = 0 then r ! u else 0)" if "u \<in> set [0..<nat (num_nodes g)]" for u
    using ok_out_weight_sum(1) [OF assms, of u] that by auto
  then show ?thesis
    unfolding dead_sum_def dangling_mass_def
    by (intro arg_cong [where f = sum_list] map_cong) auto
qed

section \<open>The example graphs are well formed\<close>

lemma upt3: "[0..<3] = [0, 1, 2]"
  by (simp add: upt_rec)

lemma all_less_3: "(\<forall>u<3::nat. P u) \<longleftrightarrow> P 0 \<and> P 1 \<and> P 2"
proof -
  have "u < 3 \<longleftrightarrow> u = 0 \<or> u = 1 \<or> u = 2" for u :: nat by linarith
  then show ?thesis by auto
qed

lemma chain3_ok: "csr_ok chain3"
  by (simp add: csr_ok_def csr_shape_def chain3_def row_edges_def all_less_3 upt_rec)

lemma cycle3_ok: "csr_ok cycle3"
  by (simp add: csr_ok_def csr_shape_def cycle3_def row_edges_def all_less_3 upt_rec)

section \<open>The formula of a sweep\<close>

text \<open>
  Claim C1. In a sweep of the power iteration on a well-formed graph, the scatter phase
  leaves in \<^verbatim>\<open>r_new[v]\<close> the sum of \<open>r[u] * (w / out_weight_sum[u])\<close> over the edges
  \<open>u \<rightarrow> v\<close> of the nodes \<open>u\<close> with \<open>out_weight_sum[u] > 0\<close>, and in \<^verbatim>\<open>dead_mass\<close> the
  sum of \<open>r[u]\<close> over the dangling nodes. The combine phase then sets, for every node
  \<open>i\<close>, \<open>r_new[i] = (1 - alpha) * r_new[i] + alpha * p[i] + (1 - alpha) * dead_mass * p[i]\<close>:
  the dangling mass goes to the nodes in proportion to \<open>p\<close>, damped by \<open>1 - alpha\<close>, and a
  node with \<open>p[i] = 0\<close> receives none of it.
\<close>

theorem sweep_formula:
  assumes "csr_ok g" and "length r = nat (num_nodes g)" and "length p = nat (num_nodes g)"
  shows "\<exists>r_new0 dead_mass r_new diff.
           scatter g r (num_nodes g) 0 (replicate (nat (num_nodes g)) 0) 0 = Some (r_new0, dead_mass) \<and>
           (\<forall>v<nat (num_nodes g). r_new0 ! v = inflow g r v) \<and>
           dead_mass = dangling_mass g r \<and>
           sweep g alpha p r = Some (r_new, diff) \<and>
           length r_new = nat (num_nodes g) \<and>
           (\<forall>i<nat (num_nodes g).
              r_new ! i = (1 - alpha) * r_new0 ! i + alpha * p ! i + (1 - alpha) * dead_mass * p ! i)"
proof -
  note sh = ok_shape [OF assms(1)]
  obtain rn0 where sc: "scatter g r (num_nodes g) 0 (replicate (nat (num_nodes g)) 0) 0 =
      Some (rn0, dead_sum g r)"
    and nth0: "\<forall>v<nat (num_nodes g). rn0 ! v = inflow g r v"
    using scatter_result [OF sh assms(2)] by blast
  obtain rn d where sw: "sweep g alpha p r = Some (rn, d)" and len: "length rn = nat (num_nodes g)"
    and nth: "\<forall>i<nat (num_nodes g).
                  rn ! i = (1 - alpha) * inflow g r i + alpha * p ! i
                             + (1 - alpha) * dead_sum g r * p ! i"
    using sweep_result [OF sh assms(2,3), of alpha] by blast
  show ?thesis
    using sc nth0 sw len nth dead_sum_dangling [OF assms(1), of r]
    by (intro exI [of _ rn0] exI [of _ "dangling_mass g r"] exI [of _ rn] exI [of _ d]) simp
qed

theorem sweep_formula_witness:
  "csr_ok chain3 \<and>
   (\<exists>r_new diff. sweep chain3 (1 / 2) [1, 0, 0] [1 / 2, 0, 1 / 2] = Some (r_new, diff) \<and>
      r_new ! 0 = 3 / 4 \<and> r_new ! 1 = 1 / 4 \<and> r_new ! 2 = 0)"
proof -
  have l: "length [1 / 2, 0, 1 / 2 :: real] = nat (num_nodes chain3)"
    "length [1, 0, 0 :: real] = nat (num_nodes chain3)"
    by (simp_all add: chain3_def)
  have N: "nat (num_nodes chain3) = 3" by (simp add: chain3_def)
  have i: "inflow chain3 [1 / 2, 0, 1 / 2] 0 = 0" "inflow chain3 [1 / 2, 0, 1 / 2] (Suc 0) = 1 / 2"
    "inflow chain3 [1 / 2, 0, 1 / 2] 2 = 0"
    by (simp_all add: inflow_def edge_flow_def row_edges_def chain3_def upt_rec)
  have d: "dangling_mass chain3 [1 / 2, 0, 1 / 2] = 1 / 2"
    by (simp add: dangling_mass_def chain3_def upt_rec)
  from sweep_formula [OF chain3_ok l, of "1 / 2"]
  obtain r0 dm rn d where a: "\<forall>v<nat (num_nodes chain3). r0 ! v = inflow chain3 [1 / 2, 0, 1 / 2] v"
    and dm: "dm = dangling_mass chain3 [1 / 2, 0, 1 / 2]"
    and sw: "sweep chain3 (1 / 2) [1, 0, 0] [1 / 2, 0, 1 / 2] = Some (rn, d)"
    and f: "\<forall>i<nat (num_nodes chain3).
              rn ! i = (1 - 1 / 2) * r0 ! i + 1 / 2 * [1, 0, 0] ! i + (1 - 1 / 2) * dm * [1, 0, 0] ! i"
    by blast
  have "rn ! 0 = 3 / 4"
    using f [rule_format, of 0] a [rule_format, of 0] by (simp add: N i d dm)
  moreover have "rn ! 1 = 1 / 4"
    using f [rule_format, of 1] a [rule_format, of 1] by (simp add: N i d dm)
  moreover have "rn ! 2 = 0"
    using f [rule_format, of 2] a [rule_format, of 2] by (simp add: N i d dm)
  ultimately show ?thesis using sw chain3_ok by simp
qed

section \<open>The personalization vector and the return of the power iteration\<close>

lemma personalization_empty: "personalization N [] = Some (replicate (nat N) 0)"
  by (simp add: personalization_def)

lemma seed_loop_result:
  assumes "\<forall>s\<in>set seeds. 0 \<le> s" and "length p = nat N"
  shows "\<exists>p'. seed_loop seeds N mass p = Some p' \<and> length p' = nat N \<and>
           (\<forall>i<nat N. p' ! i = (if int i \<in> set seeds then mass else p ! i))"
  using assms
proof (induction seeds arbitrary: p)
  case Nil
  then show ?case by simp
next
  case (Cons s seeds)
  show ?case
  proof (cases "s < N")
    case True
    have s: "0 \<le> s" "s < int (length p)" using Cons.prems True by auto
    let ?p = "p[nat s := mass]"
    obtain p' where p': "seed_loop seeds N mass ?p = Some p'" "length p' = nat N"
      "\<forall>i<nat N. p' ! i = (if int i \<in> set seeds then mass else ?p ! i)"
      using Cons.IH [of ?p] Cons.prems by auto
    have "p' ! i = (if int i \<in> set (s # seeds) then mass else p ! i)" if "i < nat N" for i
      using p'(3) that s Cons.prems(2) by (auto simp: nth_list_update)
    then show ?thesis using p'(1,2) True s by (simp add: vec_put_in)
  next
    case False
    obtain p' where p': "seed_loop seeds N mass p = Some p'" "length p' = nat N"
      "\<forall>i<nat N. p' ! i = (if int i \<in> set seeds then mass else p ! i)"
      using Cons.IH [of p] Cons.prems by auto
    have "p' ! i = (if int i \<in> set (s # seeds) then mass else p ! i)" if "i < nat N" for i
      using p'(3) that False by auto
    then show ?thesis using p'(1,2) False by simp
  qed
qed

lemma personalization_result:
  assumes "\<forall>s\<in>set seeds. 0 \<le> s"
  shows "\<exists>p. personalization N seeds = Some p \<and> length p = nat N \<and>
           (\<forall>i<nat N. p ! i = (if int i \<in> set seeds then 1 / real (length seeds) else 0))"
proof (cases "seeds = []")
  case True
  then show ?thesis by (simp add: personalization_def)
next
  case False
  from seed_loop_result [OF assms, of "replicate (nat N) 0" N "1 / real (length seeds)"]
  show ?thesis using False by (auto simp: personalization_def)
qed

lemma power_iteration_returns:
  assumes "csr_shape g" and "length p = nat (num_nodes g)"
  shows "length r = nat (num_nodes g) \<Longrightarrow>
         \<exists>r' c. power_iteration g alpha epsilon p iter r iter_count = Some (r', c) \<and>
                length r' = nat (num_nodes g)"
proof (induction "nat (100 - iter)" arbitrary: iter r iter_count)
  case 0
  then show ?case by (subst power_iteration.simps) simp
next
  case (Suc n)
  then have it: "iter < 100" by linarith
  obtain rn d where sw: "sweep g alpha p r = Some (rn, d)" and len: "length rn = nat (num_nodes g)"
    using sweep_result [OF assms(1) Suc.prems assms(2), of alpha] by blast
  show ?case
  proof (cases "d < epsilon")
    case True
    then show ?thesis using it sw len by (subst power_iteration.simps) simp
  next
    case False
    have n: "n = nat (100 - (iter + 1))" using Suc.hyps(2) by linarith
    from Suc.hyps(1) [OF n len, of "iter + 1"]
    show ?thesis using it sw False by (subst power_iteration.simps) simp
  qed
qed

lemma sum_list_all_zero: "(\<And>x. x \<in> set xs \<Longrightarrow> f x = (0::real)) \<Longrightarrow> (\<Sum>x\<leftarrow>xs. f x) = 0"
  by (induction xs) simp_all

lemma inflow_zero:
  assumes "v < nat (num_nodes g)"
  shows "inflow g (replicate (nat (num_nodes g)) 0) v = 0"
  unfolding inflow_def
  by (intro sum_list_all_zero) (auto simp: edge_flow_def intro!: sum_list_all_zero)

lemma dead_sum_zero: "dead_sum g (replicate (nat (num_nodes g)) 0) = 0"
  unfolding dead_sum_def by (intro sum_list_all_zero) auto

lemma sweep_zero:
  assumes "csr_shape g"
  shows "sweep g alpha (replicate (nat (num_nodes g)) 0) (replicate (nat (num_nodes g)) 0) =
           Some (replicate (nat (num_nodes g)) 0, 0)"
proof -
  let ?N = "nat (num_nodes g)" and ?z = "replicate (nat (num_nodes g)) (0::real)"
  obtain rn d where sw: "sweep g alpha ?z ?z = Some (rn, d)" and len: "length rn = ?N"
    and nth: "\<forall>i<?N. rn ! i = (1 - alpha) * inflow g ?z i + alpha * ?z ! i
                             + (1 - alpha) * dead_sum g ?z * ?z ! i"
    and d: "d = (\<Sum>i\<leftarrow>[0..<?N]. \<bar>rn ! i - ?z ! i\<bar>)"
    using sweep_result [OF assms, of ?z ?z alpha] by auto
  have z: "rn ! i = 0" if "i < ?N" for i
    using nth that by (simp add: inflow_zero)
  then have rn: "rn = ?z" using len by (intro nth_equalityI) auto
  have "d = 0" unfolding d by (intro sum_list_all_zero) (auto simp: z)
  then show ?thesis using sw rn by simp
qed

lemma cycle3_shape: "csr_shape cycle3"
  using cycle3_ok by (rule ok_shape)

lemmas ppr_eval =
  PPREngine_compute_def personalization_def power_iteration.simps sweep_def
  scatter.simps scatter_edges.simps combine.simps vec_at_def vec_put_def

section \<open>PPREngine with an empty seed set\<close>

text \<open>
  Claim C2, as amended. For every well-formed graph, when \<^verbatim>\<open>PPREngine::compute\<close> is
  called with an empty seed set and \<open>epsilon > 0\<close>, the personalization vector is zero
  everywhere and the engine returns a score vector that is zero everywhere, with
  1 as the iteration count: there is no early return, one sweep is made, and its L1
  difference 0 is below \<open>epsilon\<close>.
\<close>

theorem ppr_empty_seeds:
  assumes "csr_shape g" and "0 < epsilon"
  shows "personalization (num_nodes g) [] = Some (replicate (nat (num_nodes g)) 0) \<and>
         PPREngine_compute clock g [] alpha epsilon =
           Some \<lparr>scores = replicate (nat (num_nodes g)) 0,
                 duration_us = snd clock - fst clock, iterations = 1\<rparr>"
proof -
  have N: "\<not> num_nodes g < 0" using assms(1) by (simp add: csr_shape_def)
  have "power_iteration g alpha epsilon (replicate (nat (num_nodes g)) 0) 0
          (replicate (nat (num_nodes g)) 0) 0 = Some (replicate (nat (num_nodes g)) 0, 1)"
    using assms(2) by (subst power_iteration.simps) (simp add: sweep_zero [OF assms(1)])
  then show ?thesis using N by (simp add: PPREngine_compute_def personalization_empty)
qed

theorem ppr_empty_seeds_witness:
  "csr_shape cycle3 \<and> (0::real) < 1 / 1000000 \<and>
   PPREngine_compute (3, 8) cycle3 [] (15 / 100) (1 / 1000000) =
     Some \<lparr>scores = [0, 0, 0], duration_us = 5, iterations = 1\<rparr>"
  using ppr_empty_seeds [OF cycle3_shape, of "1 / 1000000" "(3, 8)" "15 / 100"] cycle3_shape
  by (simp add: cycle3_def numeral_3_eq_3)

text \<open>
  The claim as stated gives 0 as the iteration count. On the three-node cycle, with
  \<open>alpha = 0.15\<close> and \<open>epsilon = 1e-6\<close>, the count is 1.
\<close>

theorem ppr_empty_seeds_counterexample:
  "PPREngine_compute (0, 0) cycle3 [] (15 / 100) (1 / 1000000) =
     Some \<lparr>scores = [0, 0, 0], duration_us = 0, iterations = 1\<rparr> \<and>
   map_option iterations (PPREngine_compute (0, 0) cycle3 [] (15 / 100) (1 / 1000000)) \<noteq> Some 0"
  by (simp add: ppr_eval cycle3_def numeral_3_eq_3)

section \<open>Seed ids outside the graph\<close>

text \<open>
  Claim C3, as amended. \<^verbatim>\<open>PPREngine::compute\<close> rejects no seed list of non-negative
  ids: the test \<^verbatim>\<open>id < N\<close> skips every id that is \<open>N\<close> or more, each node of the
  list gets the mass \<open>1 / seeds.size()\<close>, where the size counts the skipped ids too, every
  other node gets 0, and the call returns a score vector of length \<open>N\<close>.
\<close>

theorem ppr_skips_large_seeds:
  assumes "csr_shape g" and "\<forall>s\<in>set seeds. 0 \<le> s"
  shows "\<exists>p res. personalization (num_nodes g) seeds = Some p \<and>
           (\<forall>i<nat (num_nodes g).
              p ! i = (if int i \<in> set seeds then 1 / real (length seeds) else 0)) \<and>
           PPREngine_compute clock g seeds alpha epsilon = Some res \<and>
           length (scores res) = nat (num_nodes g)"
proof -
  have N: "\<not> num_nodes g < 0" using assms(1) by (simp add: csr_shape_def)
  obtain p where p: "personalization (num_nodes g) seeds = Some p" "length p = nat (num_nodes g)"
    "\<forall>i<nat (num_nodes g). p ! i = (if int i \<in> set seeds then 1 / real (length seeds) else 0)"
    using personalization_result [OF assms(2), of "num_nodes g"] by blast
  obtain r c where r: "power_iteration g alpha epsilon p 0 p 0 = Some (r, c)"
    "length r = nat (num_nodes g)"
    using power_iteration_returns [OF assms(1) p(2) p(2), of alpha epsilon 0 0] by blast
  show ?thesis
    using N p r by (simp add: PPREngine_compute_def)
qed

theorem ppr_skips_large_seeds_witness:
  "csr_shape cycle3 \<and>
   (\<exists>p res. personalization (num_nodes cycle3) [0, 3] = Some p \<and>
      p ! 0 = 1 / 2 \<and> p ! 1 = 0 \<and> p ! 2 = 0 \<and>
      PPREngine_compute (0, 0) cycle3 [0, 3] (15 / 100) (1 / 1000000) = Some res \<and>
      length (scores res) = 3)"
proof -
  have s: "\<forall>s\<in>set [0, 3 :: int]. 0 \<le> s" by simp
  have N: "nat (num_nodes cycle3) = 3" by (simp add: cycle3_def)
  from ppr_skips_large_seeds [OF cycle3_shape s, of "(0, 0)" "15 / 100" "1 / 1000000"]
  obtain p res where p: "personalization (num_nodes cycle3) [0, 3] = Some p"
    and nth: "\<forall>i<nat (num_nodes cycle3).
                p ! i = (if int i \<in> set [0, 3] then 1 / real (length [0, 3 :: int]) else 0)"
    and res: "PPREngine_compute (0, 0) cycle3 [0, 3] (15 / 100) (1 / 1000000) = Some res"
      "length (scores res) = nat (num_nodes cycle3)"
    by blast
  have "p ! 0 = 1 / 2" using nth [rule_format, of 0] by (simp add: N)
  moreover have "p ! 1 = 0" using nth [rule_format, of 1] by (simp add: N)
  moreover have "p ! 2 = 0" using nth [rule_format, of 2] by (simp add: N)
  ultimately show ?thesis using p res cycle3_shape N by auto
qed

text \<open>
  The claim as stated has the engine reject the call. On the three-node cycle with the
  seeds 0 and 3 (3 is the id that the mapper gives to the first name that is not in the
  file), \<open>alpha = 1\<close> and \<open>epsilon = 1e-6\<close>, the call returns normally; node 0 has the
  mass \<open>1 / 2\<close> and the other half is lost.
\<close>

theorem ppr_invalid_seed_counterexample:
  "PPREngine_compute (0, 0) cycle3 [0, 3] 1 (1 / 1000000) =
     Some \<lparr>scores = [1 / 2, 0, 0], duration_us = 0, iterations = 1\<rparr>"
  by (simp add: ppr_eval cycle3_def numeral_3_eq_3)

text \<open>
  \<^verbatim>\<open>MonteCarloEngine::compute\<close> has no test of the seed ids at all: a walk that
  starts at the id 3 indexes \<^verbatim>\<open>visits\<close> outside the vector, and the run leaves the
  defined behaviour of the program.
\<close>

lemma mc_out_of_range_seed:
  "MonteCarloEngine_compute (0, 0) \<lparr>int_draws = [0], real_draws = [1 / 10]\<rparr> cycle3 [3] (1 / 2) 1 =
     Fault"
  by (simp add: MonteCarloEngine_compute_def walks.simps walk.simps vec_at_def cycle3_def)

section \<open>The iteration limit\<close>

lemma power_iteration_limit:
  assumes "\<forall>n. k \<le> n \<and> n < 100 \<longrightarrow> (\<exists>d. sweep_diff g alpha p n = Some d \<and> \<not> d < epsilon)"
  shows "k \<le> 100 \<Longrightarrow> sweeps g alpha p k = Some r \<Longrightarrow>
         \<exists>r'. sweeps g alpha p 100 = Some r' \<and>
              power_iteration g alpha epsilon p (int k) r (int k) = Some (r', 100)"
  using assms
proof (induction "100 - k" arbitrary: k r)
  case 0
  then have "k = 100" by simp
  then show ?case using 0 by (subst power_iteration.simps) simp
next
  case (Suc m)
  then have k: "k < 100" by simp
  obtain d where d: "sweep_diff g alpha p k = Some d" "\<not> d < epsilon"
    using Suc.prems(3) k by blast
  obtain r' where sw: "sweep g alpha p r = Some (r', d)"
    using d(1) Suc.prems(2) by (auto simp: sweep_diff_def split: Option.bind_splits)
  have nxt: "sweeps g alpha p (Suc k) = Some r'"
    using Suc.prems(2) sw by simp
  have m: "m = 100 - Suc k" using Suc.hyps(2) by simp
  have "\<exists>r''. sweeps g alpha p 100 = Some r'' \<and>
              power_iteration g alpha epsilon p (int (Suc k)) r' (int (Suc k)) = Some (r'', 100)"
    by (rule Suc.hyps(1) [OF m _ nxt]) (use k Suc.prems(3) in auto)
  then obtain r'' where r'': "sweeps g alpha p 100 = Some r''"
    "power_iteration g alpha epsilon p (int (Suc k)) r' (int (Suc k)) = Some (r'', 100)"
    by blast
  have "power_iteration g alpha epsilon p (int k) r (int k) =
          power_iteration g alpha epsilon p (int k + 1) r' (int k + 1)"
    using k sw d(2) by (subst power_iteration.simps) simp
  then show ?case using r'' by (simp add: add.commute)
qed

text \<open>
  Claim C8. If \<^verbatim>\<open>PPREngine::compute\<close> makes 100 sweeps and the L1 difference of
  none of them is below \<open>epsilon\<close>, it returns normally, with the vector that the last
  sweep has produced and 100 as the iteration count.
\<close>

theorem ppr_iteration_limit:
  assumes "0 \<le> num_nodes g"
    and "personalization (num_nodes g) seeds = Some p"
    and "\<forall>n<100. \<exists>d. sweep_diff g alpha p n = Some d \<and> \<not> d < epsilon"
  shows "\<exists>r. sweeps g alpha p 100 = Some r \<and>
             PPREngine_compute clock g seeds alpha epsilon =
               Some \<lparr>scores = r, duration_us = snd clock - fst clock, iterations = 100\<rparr>"
proof -
  have "\<exists>r'. sweeps g alpha p 100 = Some r' \<and>
              power_iteration g alpha epsilon p (int 0) p (int 0) = Some (r', 100)"
    by (rule power_iteration_limit) (use assms(3) in auto)
  then show ?thesis using assms(1,2) by (auto simp: PPREngine_compute_def)
qed

text \<open>
  A run that reaches the limit: the two-node cycle with the seed 0, \<open>alpha = 1 / 2\<close> and
  \<open>epsilon = 1e-30\<close>. The difference of sweep \<open>n + 1\<close> is \<open>(1 / 2) ^ n\<close>.
\<close>

lemma cycle2_shape: "csr_shape cycle2"
  by (simp add: csr_shape_def cycle2_def)

lemma cycle2_sweep:
  "sweep cycle2 (1 / 2) [1, 0] [x, 1 - x] = Some ([1 - x / 2, x / 2], \<bar>2 - 3 * x\<bar>)"
proof -
  have ev: "sweep cycle2 (1 / 2) [1, 0] [x, 1 - x] =
        Some ([(1 - 1 / 2) * (0 + (1 - x) * (1 / 1)) + 1 / 2 * 1 + (1 - 1 / 2) * 0 * 1,
               (1 - 1 / 2) * (0 + x * (1 / 1)) + 1 / 2 * 0 + (1 - 1 / 2) * 0 * 0],
              0 + \<bar>(1 - 1 / 2) * (0 + (1 - x) * (1 / 1)) + 1 / 2 * 1 + (1 - 1 / 2) * 0 * 1 - x\<bar>
                + \<bar>(1 - 1 / 2) * (0 + x * (1 / 1)) + 1 / 2 * 0 + (1 - 1 / 2) * 0 * 0 - (1 - x)\<bar>)"
    by (simp add: sweep_def scatter.simps scatter_edges.simps combine.simps vec_at_def vec_put_def
        cycle2_def numeral_2_eq_2 Let_def)
  have a: "(1 - 1 / 2) * (0 + (1 - x) * (1 / 1)) + 1 / 2 * 1 + (1 - 1 / 2) * 0 * 1 = 1 - x / 2"
    by (simp add: field_simps)
  have b: "(1 - 1 / 2) * (0 + x * (1 / 1)) + 1 / 2 * 0 + (1 - 1 / 2) * 0 * 0 = x / 2"
    by simp
  have c: "0 + \<bar>1 - x / 2 - x\<bar> + \<bar>x / 2 - (1 - x)\<bar> = \<bar>2 - 3 * x\<bar>"
    by linarith
  show ?thesis unfolding ev a b c ..
qed

lemma cycle2_sweeps:
  "sweeps cycle2 (1 / 2) [1, 0] n = Some [(2 + (- 1 / 2) ^ n) / 3, 1 - (2 + (- 1 / 2) ^ n) / 3]"
proof (induction n)
  case 0
  show ?case by simp
next
  case (Suc n)
  define x :: real where "x = (2 + (- 1 / 2) ^ n) / 3"
  have "sweeps cycle2 (1 / 2) [1, 0] (Suc n) = Some [1 - x / 2, x / 2]"
    by (simp add: Suc [folded x_def] cycle2_sweep)
  moreover have "1 - x / 2 = (2 + (- 1 / 2) ^ Suc n) / 3"
    by (simp add: x_def field_simps)
  moreover have "x / 2 = 1 - (2 + (- 1 / 2) ^ Suc n) / 3"
    by (simp add: x_def field_simps)
  ultimately show ?case by simp
qed

lemma cycle2_diff: "sweep_diff cycle2 (1 / 2) [1, 0] n = Some ((1 / 2) ^ n)"
proof -
  define x :: real where "x = (2 + (- 1 / 2) ^ n) / 3"
  have "3 * x = 2 + (- 1 / 2) ^ n" by (simp add: x_def)
  then have "2 - 3 * x = - ((- 1 / 2) ^ n)" by linarith
  then have "\<bar>2 - 3 * x\<bar> = \<bar>(- 1 / 2 :: real) ^ n\<bar>" by simp
  also have "\<dots> = (1 / 2) ^ n" by (simp add: power_abs)
  finally have d: "\<bar>2 - 3 * x\<bar> = (1 / 2) ^ n" .
  have "sweep_diff cycle2 (1 / 2) [1, 0] n = Some \<bar>2 - 3 * x\<bar>"
    by (simp add: sweep_diff_def cycle2_sweeps [of n, folded x_def] cycle2_sweep)
  then show ?thesis by (simp only: d)
qed

lemma cycle2_slow:
  assumes "n < 100"
  shows "\<not> (1 / 2 :: real) ^ n < 1 / 10 ^ 30"
proof -
  have "(1 / 2 :: real) ^ 99 \<le> (1 / 2) ^ n"
    using assms by (intro power_decreasing) auto
  moreover have "(1 / 10 ^ 30 :: real) \<le> (1 / 2) ^ 99" by (simp add: power_divide)
  ultimately show ?thesis by linarith
qed

theorem ppr_iteration_limit_witness:
  "0 \<le> num_nodes cycle2 \<and> personalization (num_nodes cycle2) [0] = Some [1, 0] \<and>
   (\<exists>r. sweeps cycle2 (1 / 2) [1, 0] 100 = Some r \<and>
        PPREngine_compute (0, 9) cycle2 [0] (1 / 2) (1 / 10 ^ 30) =
          Some \<lparr>scores = r, duration_us = 9, iterations = 100\<rparr>)"
proof -
  have N: "0 \<le> num_nodes cycle2" by (simp add: cycle2_def)
  have p: "personalization (num_nodes cycle2) [0] = Some [1, 0]"
    by (simp add: personalization_def cycle2_def vec_put_def numeral_2_eq_2)
  have slow: "\<forall>n<100. \<exists>d. sweep_diff cycle2 (1 / 2) [1, 0] n = Some d \<and> \<not> d < 1 / 10 ^ 30"
    using cycle2_slow by (simp add: cycle2_diff)
  from ppr_iteration_limit [OF N p slow, of "(0, 9)"]
  show ?thesis using N p by simp
qed

section \<open>The loader builds the graph of its edge list\<close>

lemma fill_row_result:
  "fill_row row g s c =
     (g\<lparr>col_indices := col_indices g @ map fst row,
        edge_weights := edge_weights g @ map snd row\<rparr>,
      s + rowsum row, c + int (length row))"
  by (induction row arbitrary: g s c) (simp_all add: rowsum_def)

lemma offsets_Suc: "i < length adj \<Longrightarrow> offsets adj (Suc i) = offsets adj i + int (length (adj ! i))"
  by (simp add: offsets_def take_Suc_conv_app_nth)

lemma fill_rows_result:
  assumes "length adj = N"
  shows "i \<le> N \<Longrightarrow> length (row_ptr g) = N + 1 \<Longrightarrow> length (out_weight_sum g) = N \<Longrightarrow>
    \<exists>g'. fill_rows adj (int N) (int i) g (offsets adj i) = Some (g', offsets adj N) \<and>
      num_nodes g' = num_nodes g \<and> num_edges g' = num_edges g \<and>
      length (row_ptr g') = N + 1 \<and> length (out_weight_sum g') = N \<and>
      (\<forall>j<N + 1. row_ptr g' ! j = (if i \<le> j \<and> j < N then offsets adj j else row_ptr g ! j)) \<and>
      (\<forall>j<N. out_weight_sum g' ! j = (if i \<le> j then rowsum (adj ! j) else out_weight_sum g ! j)) \<and>
      col_indices g' = col_indices g @ map fst (concat (drop i adj)) \<and>
      edge_weights g' = edge_weights g @ map snd (concat (drop i adj))"
proof (induction "N - i" arbitrary: i g)
  case 0
  then have "i = N" by simp
  then show ?case using 0 assms by (subst fill_rows.simps) simp
next
  case (Suc n)
  then have iN: "i < N" by simp
  let ?row = "adj ! i"
  let ?g2 = "g\<lparr>row_ptr := (row_ptr g)[i := offsets adj i],
               col_indices := col_indices g @ map fst ?row,
               edge_weights := edge_weights g @ map snd ?row,
               out_weight_sum := (out_weight_sum g)[i := rowsum ?row]\<rparr>"
  have unf: "fill_rows adj (int N) (int i) g (offsets adj i) =
               fill_rows adj (int N) (int (Suc i)) ?g2 (offsets adj (Suc i))"
    using iN assms Suc.prems
    by (subst fill_rows.simps)
       (simp add: vec_put_int vec_at_int fill_row_result offsets_Suc add.commute)
  have n: "n = N - Suc i" using Suc.hyps(2) by simp
  have "\<exists>g'. fill_rows adj (int N) (int (Suc i)) ?g2 (offsets adj (Suc i)) = Some (g', offsets adj N) \<and>
      num_nodes g' = num_nodes ?g2 \<and> num_edges g' = num_edges ?g2 \<and>
      length (row_ptr g') = N + 1 \<and> length (out_weight_sum g') = N \<and>
      (\<forall>j<N + 1. row_ptr g' ! j = (if Suc i \<le> j \<and> j < N then offsets adj j else row_ptr ?g2 ! j)) \<and>
      (\<forall>j<N. out_weight_sum g' ! j = (if Suc i \<le> j then rowsum (adj ! j) else out_weight_sum ?g2 ! j)) \<and>
      col_indices g' = col_indices ?g2 @ map fst (concat (drop (Suc i) adj)) \<and>
      edge_weights g' = edge_weights ?g2 @ map snd (concat (drop (Suc i) adj))"
    by (rule Suc.hyps(1) [OF n]) (use iN Suc.prems in auto)
  then obtain g' where g':
    "fill_rows adj (int N) (int (Suc i)) ?g2 (offsets adj (Suc i)) = Some (g', offsets adj N)"
    "num_nodes g' = num_nodes g" "num_edges g' = num_edges g"
    "length (row_ptr g') = N + 1" "length (out_weight_sum g') = N"
    "\<forall>j<N + 1. row_ptr g' ! j = (if Suc i \<le> j \<and> j < N then offsets adj j else row_ptr ?g2 ! j)"
    "\<forall>j<N. out_weight_sum g' ! j = (if Suc i \<le> j then rowsum (adj ! j) else out_weight_sum ?g2 ! j)"
    "col_indices g' = col_indices ?g2 @ map fst (concat (drop (Suc i) adj))"
    "edge_weights g' = edge_weights ?g2 @ map snd (concat (drop (Suc i) adj))"
    by auto
  have dr: "drop i adj = ?row # drop (Suc i) adj"
    using iN assms by (simp add: Cons_nth_drop_Suc)
  have rp: "\<forall>j<N + 1. row_ptr g' ! j = (if i \<le> j \<and> j < N then offsets adj j else row_ptr g ! j)"
  proof (intro allI impI)
    fix j assume j: "j < N + 1"
    show "row_ptr g' ! j = (if i \<le> j \<and> j < N then offsets adj j else row_ptr g ! j)"
      using g'(6) [rule_format, OF j] j iN Suc.prems(2)
      by (cases "j = i") (auto simp: nth_list_update)
  qed
  have ows: "\<forall>j<N. out_weight_sum g' ! j = (if i \<le> j then rowsum (adj ! j) else out_weight_sum g ! j)"
  proof (intro allI impI)
    fix j assume j: "j < N"
    show "out_weight_sum g' ! j = (if i \<le> j then rowsum (adj ! j) else out_weight_sum g ! j)"
      using g'(7) [rule_format, OF j] j iN Suc.prems(3)
      by (cases "j = i") (auto simp: nth_list_update)
  qed
  show ?case
    using unf g'(1-5) rp ows g'(8,9) by (simp add: dr)
qed

lemma length_concat_update:
  assumes "u < length adj"
  shows "length (concat (adj[u := adj ! u @ [x]])) = Suc (length (concat adj))"
proof -
  have "adj = take u adj @ adj ! u # drop (Suc u) adj"
    using assms by (simp add: id_take_nth_drop)
  then have "adj[u := adj ! u @ [x]] = take u adj @ (adj ! u @ [x]) # drop (Suc u) adj"
    using assms by (metis upd_conv_take_nth_drop)
  then have "length (concat (adj[u := adj ! u @ [x]])) =
      length (concat (take u adj)) + Suc (length (adj ! u)) + length (concat (drop (Suc u) adj))"
    by simp
  moreover have "length (concat adj) =
      length (concat (take u adj)) + length (adj ! u) + length (concat (drop (Suc u) adj))"
    using assms by (subst id_take_nth_drop [OF assms]) simp
  ultimately show ?thesis by simp
qed

lemma build_adj_result:
  assumes "\<forall>e\<in>set es. 0 \<le> e_u e \<and> e_u e < int (length adj)"
  shows "\<exists>adj'. build_adj es adj = Some adj' \<and> length adj' = length adj \<and>
           (\<forall>u<length adj. adj' ! u = adj ! u @ row_of es u) \<and>
           length (concat adj') = length (concat adj) + length es"
  using assms
proof (induction es arbitrary: adj)
  case Nil
  then show ?case by (simp add: row_of_def)
next
  case (Cons e es)
  have u: "0 \<le> e_u e" "e_u e < int (length adj)" using Cons.prems by auto
  let ?u = "nat (e_u e)"
  let ?adj = "adj[?u := adj ! ?u @ [(e_v e, e_w e)]]"
  have "\<exists>adj'. build_adj es ?adj = Some adj' \<and> length adj' = length ?adj \<and>
           (\<forall>u<length ?adj. adj' ! u = ?adj ! u @ row_of es u) \<and>
           length (concat adj') = length (concat ?adj) + length es"
    by (rule Cons.IH) (use Cons.prems in auto)
  then obtain adj' where adj': "build_adj es ?adj = Some adj'" "length adj' = length adj"
    "\<forall>u<length adj. adj' ! u = ?adj ! u @ row_of es u"
    "length (concat adj') = length (concat ?adj) + length es"
    by auto
  have "adj' ! v = adj ! v @ row_of (e # es) v" if "v < length adj" for v
  proof (cases "v = ?u")
    case True
    then have "e_u e = int v" using u by simp
    then show ?thesis using adj'(3) that True by (simp add: row_of_def)
  next
    case False
    then have "e_u e \<noteq> int v" using u by auto
    then show ?thesis using adj'(3) that False by (simp add: row_of_def)
  qed
  moreover have "length (concat adj') = length (concat adj) + length (e # es)"
    using adj'(4) length_concat_update [of ?u adj] u by simp
  ultimately show ?case
    using adj'(1,2) u by (simp add: vec_at_in vec_put_in)
qed

lemma getId_ok:
  assumes "mapper_ok m" and "getId m name = (i, m')"
  shows "mapper_ok m'" and "0 \<le> i" and "i < getNumNodes m'"
    and "getNumNodes m \<le> getNumNodes m'"
proof -
  have old: "0 \<le> j \<and> j < int (length (id_to_name m))" if "name_to_id m n = Some j" for n j
    using assms(1) that unfolding mapper_ok_def by blast
  have "mapper_ok m' \<and> 0 \<le> i \<and> i < getNumNodes m' \<and> getNumNodes m \<le> getNumNodes m'"
  proof (cases "name_to_id m name")
    case None
    then have m': "m' = m\<lparr>name_to_id := (name_to_id m)(name \<mapsto> int (length (id_to_name m))),
                           id_to_name := id_to_name m @ [name]\<rparr>"
      and i: "i = int (length (id_to_name m))"
      using assms(2) by (auto simp: getId_def Let_def)
    have "mapper_ok m'"
      unfolding mapper_ok_def
    proof (intro allI impI)
      fix n j assume "name_to_id m' n = Some j"
      then have "j = int (length (id_to_name m)) \<or> name_to_id m n = Some j"
        by (auto simp: m' split: if_splits)
      then show "0 \<le> j \<and> j < int (length (id_to_name m'))"
        using old [of n j] by (auto simp: m')
    qed
    then show ?thesis by (simp add: i m' getNumNodes_def)
  next
    case (Some j)
    then have "m' = m" "i = j" using assms(2) by (simp_all add: getId_def)
    then show ?thesis
      using assms(1) old [OF Some] by (simp add: getNumNodes_def)
  qed
  then show "mapper_ok m'" "0 \<le> i" "i < getNumNodes m'" "getNumNodes m \<le> getNumNodes m'"
    by simp_all
qed

lemma edges_below_mono: "edges_below n es \<Longrightarrow> n \<le> n' \<Longrightarrow> edges_below n' es"
  by (fastforce simp: edges_below_def)

lemma read_lines_ok:
  assumes "mapper_ok m" and "edges_below (getNumNodes m) es"
    and "read_lines ls m es = (es', m')"
  shows "mapper_ok m' \<and> edges_below (getNumNodes m') es' \<and>
         map e_w es' = map e_w es @ map line_weight (edge_columns ls)"
  using assms
proof (induction ls m es rule: read_lines.induct)
  case (1 mapper temp_edges)
  then show ?case by simp
next
  case (2 ls mapper temp_edges)
  then show ?case by simp
next
  case (3 u_str v_str w_in ls mapper temp_edges)
  obtain u m1 where g1: "getId mapper u_str = (u, m1)" by (cases "getId mapper u_str")
  obtain v m2 where g2: "getId m1 v_str = (v, m2)" by (cases "getId m1 v_str")
  note ok1 = getId_ok [OF "3.prems"(1) g1]
  note ok2 = getId_ok [OF ok1(1) g2]
  let ?es = "temp_edges @ [\<lparr>e_u = u, e_v = v, e_w = line_weight w_in\<rparr>]"
  have below: "edges_below (getNumNodes m2) ?es"
    using edges_below_mono [OF "3.prems"(2), of "getNumNodes m2"] ok1 ok2
    by (auto simp: edges_below_def)
  have rec: "read_lines ls m2 ?es = (es', m')"
    using "3.prems"(3) g1 g2 by simp
  from "3.IH" [OF refl refl g1 [symmetric] refl g2 [symmetric] ok2(1) below rec]
  show ?case by simp
qed

lemma new_mapper_ok: "mapper_ok new_mapper"
  by (simp add: mapper_ok_def new_mapper_def)

lemma offsets_0: "offsets adj 0 = 0"
  by (simp add: offsets_def)

lemma loader_result:
  assumes "read_lines ls new_mapper [] = (es, m)"
  shows "\<exists>g. loadGraphFromFile (Some ls) new_mapper = Inr (g, m) \<and>
           num_nodes g = int (length (id_to_name m)) \<and>
           num_edges g = int (length es) \<and>
           length (row_ptr g) = length (id_to_name m) + 1 \<and>
           (\<forall>j<length (id_to_name m) + 1.
              row_ptr g ! j = offsets (map (row_of es) [0..<length (id_to_name m)]) j) \<and>
           out_weight_sum g = map rowsum (map (row_of es) [0..<length (id_to_name m)]) \<and>
           col_indices g = map fst (concat (map (row_of es) [0..<length (id_to_name m)])) \<and>
           edge_weights g = map snd (concat (map (row_of es) [0..<length (id_to_name m)])) \<and>
           length (concat (map (row_of es) [0..<length (id_to_name m)])) = length es \<and>
           edges_below (int (length (id_to_name m))) es"
proof -
  let ?N = "length (id_to_name m)"
  let ?adj = "map (row_of es) [0..<?N]"
  have rl: "mapper_ok m" "edges_below (getNumNodes m) es"
    using read_lines_ok [OF new_mapper_ok _ assms] by (simp_all add: edges_below_def)
  have gn: "getNumNodes m = int ?N" by (simp add: getNumNodes_def)
  have rng: "\<forall>e\<in>set es. 0 \<le> e_u e \<and> e_u e < int (length (replicate ?N ([] :: (int \<times> real) list)))"
    using rl(2) by (simp add: edges_below_def gn)
  obtain adj' where adj': "build_adj es (replicate ?N []) = Some adj'" "length adj' = ?N"
    "\<forall>u<?N. adj' ! u = replicate ?N [] ! u @ row_of es u"
    "length (concat adj') = length (concat (replicate ?N ([] :: (int \<times> real) list))) + length es"
    using build_adj_result [OF rng] by auto
  have adj_eq: "adj' = ?adj"
    using adj'(2,3) by (intro nth_equalityI) auto
  have cnt: "length (concat ?adj) = length es"
    using adj'(4) unfolding adj_eq by simp
  let ?g0 = "(CSRGraph_new (int ?N))\<lparr>num_edges := int (length es)\<rparr>"
  have "\<exists>g'. fill_rows ?adj (int ?N) (int 0) ?g0 (offsets ?adj 0) = Some (g', offsets ?adj ?N) \<and>
      num_nodes g' = num_nodes ?g0 \<and> num_edges g' = num_edges ?g0 \<and>
      length (row_ptr g') = ?N + 1 \<and> length (out_weight_sum g') = ?N \<and>
      (\<forall>j<?N + 1. row_ptr g' ! j = (if 0 \<le> j \<and> j < ?N then offsets ?adj j else row_ptr ?g0 ! j)) \<and>
      (\<forall>j<?N. out_weight_sum g' ! j = (if 0 \<le> j then rowsum (?adj ! j) else out_weight_sum ?g0 ! j)) \<and>
      col_indices g' = col_indices ?g0 @ map fst (concat (drop 0 ?adj)) \<and>
      edge_weights g' = edge_weights ?g0 @ map snd (concat (drop 0 ?adj))"
    by (rule fill_rows_result) (simp_all add: CSRGraph_new_def nat_add_distrib)
  then obtain g' where g':
    "fill_rows ?adj (int ?N) 0 ?g0 0 = Some (g', offsets ?adj ?N)"
    "num_nodes g' = int ?N" "num_edges g' = int (length es)"
    "length (row_ptr g') = ?N + 1" "length (out_weight_sum g') = ?N"
    "\<forall>j<?N + 1. row_ptr g' ! j = (if j < ?N then offsets ?adj j else row_ptr ?g0 ! j)"
    "\<forall>j<?N. out_weight_sum g' ! j = rowsum (?adj ! j)"
    "col_indices g' = map fst (concat ?adj)"
    "edge_weights g' = map snd (concat ?adj)"
    by (auto simp: offsets_0 CSRGraph_new_def)
  let ?g = "g'\<lparr>row_ptr := (row_ptr g')[?N := offsets ?adj ?N]\<rparr>"
  have load: "loadGraphFromFile (Some ls) new_mapper = Inr (?g, m)"
    using assms adj'(1) g'(1,4)
    by (simp add: loadGraphFromFile_def gn adj_eq vec_put_int)
  have rp: "\<forall>j<?N + 1. row_ptr ?g ! j = offsets ?adj j"
  proof (intro allI impI)
    fix j assume j: "j < ?N + 1"
    show "row_ptr ?g ! j = offsets ?adj j"
      using g'(6) [rule_format, OF j] j g'(4) by (cases "j = ?N") (auto simp: nth_list_update)
  qed
  have ows: "out_weight_sum ?g = map rowsum ?adj"
    using g'(5,7) by (intro nth_equalityI) auto
  show ?thesis
    using load g'(2,3,4,8,9) rp ows cnt rl(2) unfolding gn
    by (intro exI [of _ ?g]) simp
qed

lemma offsets_mono: "i \<le> j \<Longrightarrow> offsets adj i \<le> offsets adj j"
proof -
  assume "i \<le> j"
  then have "take j adj = take i adj @ take (j - i) (drop i adj)"
    by (metis le_add_diff_inverse take_add)
  then show ?thesis by (simp add: offsets_def)
qed

lemma offsets_all: "length adj \<le> n \<Longrightarrow> offsets adj n = int (length (concat adj))"
  by (simp add: offsets_def)

lemma concat_slice:
  assumes "u < length adj"
  shows "map (\<lambda>k. concat adj ! k) [nat (offsets adj u)..<nat (offsets adj (Suc u))] = adj ! u"
proof -
  let ?a = "concat (take u adj)" and ?c = "concat (drop (Suc u) adj)"
  have split: "concat adj = ?a @ adj ! u @ ?c"
    by (subst id_take_nth_drop [OF assms]) simp
  have o: "nat (offsets adj u) = length ?a"
    "nat (offsets adj (Suc u)) = length ?a + length (adj ! u)"
    using assms by (simp_all add: offsets_def take_Suc_conv_app_nth)
  show ?thesis
    unfolding o split
    by (intro nth_equalityI) (simp_all add: nth_append)
qed

lemma line_weight_pos: "0 < line_weight w_in"
  by (cases w_in) (auto simp: line_weight_def Let_def)

lemma in_concat_rows:
  assumes "x \<in> set (concat (map (row_of es) us))"
  shows "\<exists>e\<in>set es. x = (e_v e, e_w e)"
  using assms by (auto simp: row_of_def)

lemma loader_graph:
  assumes "read_lines ls new_mapper [] = (es, m)"
  shows "\<exists>g. loadGraphFromFile (Some ls) new_mapper = Inr (g, m) \<and> csr_ok g \<and>
           num_edges g = int (length (edge_columns ls)) \<and>
           (\<forall>u<nat (num_nodes g).
              map (\<lambda>k. (col_indices g ! k, edge_weights g ! k)) (row_edges g u) = row_of es u)"
proof -
  let ?N = "length (id_to_name m)"
  let ?adj = "map (row_of es) [0..<?N]"
  obtain g where g: "loadGraphFromFile (Some ls) new_mapper = Inr (g, m)"
    "num_nodes g = int ?N" "num_edges g = int (length es)"
    "length (row_ptr g) = ?N + 1"
    "\<forall>j<?N + 1. row_ptr g ! j = offsets ?adj j"
    "out_weight_sum g = map rowsum ?adj"
    "col_indices g = map fst (concat ?adj)"
    "edge_weights g = map snd (concat ?adj)"
    "length (concat ?adj) = length es"
    "edges_below (int ?N) es"
    using loader_result [OF assms] by blast
  have ws: "map e_w es = map line_weight (edge_columns ls)"
    using read_lines_ok [OF new_mapper_ok _ assms] by (simp add: edges_below_def)
  then have len: "length es = length (edge_columns ls)"
    by (metis length_map)
  have rp: "row_ptr g ! j = offsets ?adj j" if "j \<le> ?N" for j
    using g(5) that by simp
  have sorted: "sorted (row_ptr g)"
    unfolding sorted_iff_nth_mono
  proof (intro allI impI)
    fix i j assume "i \<le> j" "j < length (row_ptr g)"
    then show "row_ptr g ! i \<le> row_ptr g ! j"
      using g(4) rp [of i] rp [of j] offsets_mono [of i j ?adj] by simp
  qed
  have cols: "\<forall>v\<in>set (col_indices g). 0 \<le> v \<and> v < num_nodes g"
  proof
    fix v assume "v \<in> set (col_indices g)"
    then obtain x where "x \<in> set (concat ?adj)" "v = fst x" unfolding g(7) by auto
    then obtain e where "e \<in> set es" "v = e_v e" using in_concat_rows by fastforce
    then show "0 \<le> v \<and> v < num_nodes g" using g(10,2) by (simp add: edges_below_def)
  qed
  have pos: "\<forall>w\<in>set (edge_weights g). 0 < w"
  proof
    fix w assume "w \<in> set (edge_weights g)"
    then obtain x where "x \<in> set (concat ?adj)" "w = snd x" unfolding g(8) by auto
    then obtain e where "e \<in> set es" "w = e_w e" using in_concat_rows by fastforce
    then have "w \<in> set (map e_w es)" by simp
    then show "0 < w" unfolding ws using line_weight_pos by auto
  qed
  have re: "row_edges g u = [nat (offsets ?adj u)..<nat (offsets ?adj (Suc u))]" if "u < ?N" for u
    using rp [of u] rp [of "Suc u"] that by (simp add: row_edges_def)
  have inb: "k < length (concat ?adj)" if "u < ?N" "k \<in> set (row_edges g u)" for u k
  proof -
    have "offsets ?adj (Suc u) \<le> offsets ?adj ?N" using that(1) by (intro offsets_mono) simp
    then have "nat (offsets ?adj (Suc u)) \<le> length (concat ?adj)"
      by (simp add: offsets_all)
    then show ?thesis using that by (simp add: re)
  qed
  have row: "map (\<lambda>k. (col_indices g ! k, edge_weights g ! k)) (row_edges g u) = row_of es u"
    if "u < ?N" for u
  proof -
    have "map (\<lambda>k. (col_indices g ! k, edge_weights g ! k)) (row_edges g u) =
          map (\<lambda>k. concat ?adj ! k) (row_edges g u)"
      using inb [OF that] by (intro map_cong) (simp_all add: g(7,8))
    also have "\<dots> = ?adj ! u"
      using concat_slice [of u ?adj] that by (simp add: re)
    finally show ?thesis using that by simp
  qed
  have sums: "out_weight_sum g ! u = (\<Sum>k\<leftarrow>row_edges g u. edge_weights g ! k)" if "u < ?N" for u
  proof -
    have "map (\<lambda>k. edge_weights g ! k) (row_edges g u) =
          map snd (map (\<lambda>k. (col_indices g ! k, edge_weights g ! k)) (row_edges g u))"
      by simp
    also have "\<dots> = map snd (row_of es u)" by (simp only: row [OF that])
    finally show ?thesis using that by (simp add: g(6) rowsum_def)
  qed
  have shape: "csr_shape g"
    unfolding csr_shape_def
    using g(2,4,6,7,8,9) sorted cols rp [of 0] rp [of ?N]
    by (simp add: offsets_0 offsets_all)
  have "csr_ok g"
    unfolding csr_ok_def using shape g(2,3,8,9) pos sums by simp
  then show ?thesis using g(1,2,3) len row by (intro exI [of _ g]) simp
qed

lemmas loader_eval =
  loadGraphFromFile_def new_mapper_def getId_def line_weight_def getNumNodes_def
  CSRGraph_new_def fill_rows.simps vec_at_def vec_put_def

lemma weights_file_graph:
  "map_sum id fst (loadGraphFromFile (Some weights_file) new_mapper) = Inr weights_graph"
  by (simp add: loader_eval weights_file_def weights_graph_def eval_nat_numeral)

lemma cycle3_file_graph:
  "map_sum id fst (loadGraphFromFile (Some cycle3_file) new_mapper) = Inr cycle3"
  by (simp add: loader_eval cycle3_file_def cycle3_def eval_nat_numeral)

text \<open>
  After the load of the three-node cycle, a seed name that is not in the file gets the id
  3, which is not a node of the graph.
\<close>

lemma cycle3_unknown_name:
  "(case loadGraphFromFile (Some cycle3_file) new_mapper of
      Inr (g, m) \<Rightarrow> Some (num_nodes g, fst (getId m ''x''))
    | Inl e \<Rightarrow> None) = Some (3, 3)"
  by (simp add: loader_eval cycle3_file_def eval_nat_numeral)

lemma mset_concat_append:
  "mset (concat (map (\<lambda>u. f u @ g u) us)) = mset (concat (map f us)) + mset (concat (map g us))"
  by (induction us) simp_all

lemma concat_single_none:
  "\<forall>u\<in>set us. int u \<noteq> k \<Longrightarrow> concat (map (\<lambda>u. if k = int u then [x] else []) us) = []"
  by (induction us) simp_all

lemma concat_single:
  assumes "0 \<le> k" and "k < int N"
  shows "concat (map (\<lambda>u. if k = int u then [x] else []) [0..<N]) = [x]"
  using assms
proof (induction N)
  case 0
  then show ?case by simp
next
  case (Suc N)
  show ?case
  proof (cases "k = int N")
    case True
    then show ?thesis by (simp add: concat_single_none)
  next
    case False
    then have "k < int N" using Suc.prems by simp
    then show ?thesis using Suc.IH Suc.prems(1) False by simp
  qed
qed

lemma mset_rows:
  assumes "\<forall>e\<in>set es. 0 \<le> e_u e \<and> e_u e < int N"
  shows "mset (concat (map (row_of es) [0..<N])) = mset (map (\<lambda>e. (e_v e, e_w e)) es)"
  using assms
proof (induction es)
  case Nil
  then show ?case by (simp add: row_of_def)
next
  case (Cons e es)
  have r: "row_of (e # es) = (\<lambda>u. (if e_u e = int u then [(e_v e, e_w e)] else []) @ row_of es u)"
    by (auto simp: row_of_def)
  have "concat (map (\<lambda>u. if e_u e = int u then [(e_v e, e_w e)] else []) [0..<N]) = [(e_v e, e_w e)]"
    using Cons.prems by (intro concat_single) auto
  then show ?case
    using Cons by (simp add: r mset_concat_append)
qed

section \<open>The CSR invariant\<close>

text \<open>
  Claim C4. For every file, the loader started with a new mapper builds a graph: its
  \<^verbatim>\<open>row_ptr\<close> has length \<open>N + 1\<close>, is non-decreasing, starts with 0 and ends with
  \<open>E\<close>, the number of edges (the number of edge lines of the file, and the length of
  \<^verbatim>\<open>edge_weights\<close>), and for every node \<open>u\<close>, \<^verbatim>\<open>out_weight_sum[u]\<close> is the sum
  of \<^verbatim>\<open>edge_weights\<close> over the range from \<open>row_ptr[u]\<close> to \<open>row_ptr[u + 1]\<close>, the
  second excluded.
\<close>

theorem loader_csr_invariant:
  "\<exists>g m. loadGraphFromFile (Some ls) new_mapper = Inr (g, m) \<and>
     length (row_ptr g) = nat (num_nodes g) + 1 \<and>
     sorted (row_ptr g) \<and>
     row_ptr g ! 0 = 0 \<and>
     row_ptr g ! nat (num_nodes g) = num_edges g \<and>
     num_edges g = int (length (edge_columns ls)) \<and>
     length (edge_weights g) = length (edge_columns ls) \<and>
     (\<forall>u<nat (num_nodes g).
        out_weight_sum g ! u = (\<Sum>k\<leftarrow>row_edges g u. edge_weights g ! k))"
proof -
  obtain es m where rl: "read_lines ls new_mapper [] = (es, m)"
    by (cases "read_lines ls new_mapper []")
  obtain g where g: "loadGraphFromFile (Some ls) new_mapper = Inr (g, m)" "csr_ok g"
    "num_edges g = int (length (edge_columns ls))"
    using loader_graph [OF rl] by blast
  show ?thesis
    using g by (intro exI [of _ g] exI [of _ m]) (simp add: csr_ok_def csr_shape_def)
qed

theorem loader_csr_invariant_witness:
  "map_sum id fst (loadGraphFromFile (Some weights_file) new_mapper) = Inr weights_graph \<and>
   row_edges weights_graph 0 = [0, 1] \<and>
   out_weight_sum weights_graph ! 0 = (\<Sum>k\<leftarrow>row_edges weights_graph 0. edge_weights weights_graph ! k) \<and>
   out_weight_sum weights_graph ! 0 = 1 + 3"
proof -
  from loader_csr_invariant [of weights_file]
  obtain g m where g: "loadGraphFromFile (Some weights_file) new_mapper = Inr (g, m)"
    and sums: "\<forall>u<nat (num_nodes g).
        out_weight_sum g ! u = (\<Sum>k\<leftarrow>row_edges g u. edge_weights g ! k)"
    by blast
  have eq: "g = weights_graph" using g weights_file_graph by simp
  have "0 < nat (num_nodes weights_graph)" by (simp add: weights_graph_def)
  with sums have "out_weight_sum weights_graph ! 0 =
      (\<Sum>k\<leftarrow>row_edges weights_graph 0. edge_weights weights_graph ! k)"
    unfolding eq by blast
  moreover have "row_edges weights_graph 0 = [0, 1]"
    by (simp add: row_edges_def weights_graph_def upt_rec)
  moreover have "out_weight_sum weights_graph ! 0 = 1 + 3"
    by (simp add: weights_graph_def)
  ultimately show ?thesis using weights_file_graph by simp
qed

section \<open>The weights of the built graph\<close>

text \<open>
  \<^verbatim>\<open>getId\<close> never changes the id of a name that the mapper knows, so the ids that the
  loader gave to the names of a line while it read the file are the ids of the final
  mapper, and the edges read are the edge lines of the file, one edge per line.
\<close>

lemma getId_known: "name_to_id m n = Some i \<Longrightarrow> getId m n = (i, m)"
  by (simp add: getId_def)

lemma getId_keeps:
  assumes "getId m name = (i, m')"
  shows "name_to_id m' name = Some i" and "keeps_ids m m'"
proof -
  have "name_to_id m' name = Some i \<and> keeps_ids m m'"
  proof (cases "name_to_id m name")
    case None
    then have m': "m' = m\<lparr>name_to_id := (name_to_id m)(name \<mapsto> int (length (id_to_name m))),
                           id_to_name := id_to_name m @ [name]\<rparr>"
      and i: "i = int (length (id_to_name m))"
      using assms by (auto simp: getId_def Let_def)
    show ?thesis using None by (auto simp: m' i keeps_ids_def)
  next
    case (Some j)
    then have "m' = m" "i = j" using assms by (simp_all add: getId_def)
    then show ?thesis using Some by (simp add: keeps_ids_def)
  qed
  then show "name_to_id m' name = Some i" "keeps_ids m m'" by simp_all
qed

lemma keeps_ids_refl: "keeps_ids m m"
  by (simp add: keeps_ids_def)

lemma keeps_ids_trans: "keeps_ids m m' \<Longrightarrow> keeps_ids m' m'' \<Longrightarrow> keeps_ids m m''"
  by (simp add: keeps_ids_def)

lemma keeps_ids_getId: "keeps_ids m m' \<Longrightarrow> name_to_id m n = Some i \<Longrightarrow> fst (getId m' n) = i"
  by (simp add: keeps_ids_def getId_known)

lemma line_edge_keeps:
  assumes "keeps_ids m m'" and "e = line_edge m l"
    and "name_to_id m (fst l) \<noteq> None" and "name_to_id m (fst (snd l)) \<noteq> None"
  shows "line_edge m' l = e"
proof -
  obtain a b w where l: "l = (a, b, w)" by (cases l)
  obtain i j where ij: "name_to_id m a = Some i" "name_to_id m b = Some j"
    using assms(3,4) l by auto
  show ?thesis
    using assms(1,2) ij
    by (simp add: l line_edge_def keeps_ids_getId getId_known)
qed

lemma read_lines_edges:
  assumes "read_lines ls m es = (es', m')"
  shows "keeps_ids m m' \<and>
         (\<exists>new. es' = es @ new \<and> new = map (line_edge m') (edge_lines ls) \<and>
            (\<forall>l\<in>set (edge_lines ls). name_to_id m' (fst l) \<noteq> None \<and>
                                      name_to_id m' (fst (snd l)) \<noteq> None))"
  using assms
proof (induction ls m es rule: read_lines.induct)
  case (1 mapper temp_edges)
  then show ?case by (simp add: keeps_ids_refl)
next
  case (2 ls mapper temp_edges)
  then show ?case by simp
next
  case (3 u_str v_str w_in ls mapper temp_edges)
  obtain u m1 where g1: "getId mapper u_str = (u, m1)" by (cases "getId mapper u_str")
  obtain v m2 where g2: "getId m1 v_str = (v, m2)" by (cases "getId m1 v_str")
  let ?e = "\<lparr>e_u = u, e_v = v, e_w = line_weight w_in\<rparr>"
  have rec: "read_lines ls m2 (temp_edges @ [?e]) = (es', m')"
    using "3.prems" g1 g2 by simp
  from "3.IH" [OF refl refl g1 [symmetric] refl g2 [symmetric] rec]
  have k2: "keeps_ids m2 m'"
    and es': "es' = (temp_edges @ [?e]) @ map (line_edge m') (edge_lines ls)"
    and known: "\<forall>l\<in>set (edge_lines ls). name_to_id m' (fst l) \<noteq> None \<and>
                                      name_to_id m' (fst (snd l)) \<noteq> None"
    by auto
  note a = getId_keeps [OF g1] and b = getId_keeps [OF g2]
  have ua: "name_to_id m2 u_str = Some u" using a(1) b(2) by (simp add: keeps_ids_def)
  have u': "name_to_id m' u_str = Some u" using ua k2 by (simp add: keeps_ids_def)
  have v': "name_to_id m' v_str = Some v" using b(1) k2 by (simp add: keeps_ids_def)
  have e: "line_edge m' (u_str, v_str, w_in) = ?e"
    using u' v' by (simp add: line_edge_def getId_known)
  have "keeps_ids mapper m'"
    using a(2) b(2) k2 by (blast intro: keeps_ids_trans)
  then show ?case using es' known e u' v' by simp
qed

lemma edge_columns_lines: "edge_columns ls = map (\<lambda>l. snd (snd l)) (edge_lines ls)"
  by (induction ls rule: edge_lines.induct) simp_all

lemma line_edge_known:
  assumes "name_to_id m (fst l) \<noteq> None" and "name_to_id m (fst (snd l)) \<noteq> None"
  shows "name_to_id m (fst l) = Some (e_u (line_edge m l))"
    and "name_to_id m (fst (snd l)) = Some (e_v (line_edge m l))"
    and "e_w (line_edge m l) = line_weight (snd (snd l))"
proof -
  obtain a b w where l: "l = (a, b, w)" by (cases l)
  obtain i j where ij: "name_to_id m a = Some i" "name_to_id m b = Some j"
    using assms l by auto
  show "name_to_id m (fst l) = Some (e_u (line_edge m l))"
    "name_to_id m (fst (snd l)) = Some (e_v (line_edge m l))"
    "e_w (line_edge m l) = line_weight (snd (snd l))"
    using ij by (simp_all add: l line_edge_def getId_known)
qed

lemma row_of_lines:
  assumes "\<forall>l\<in>set xs. name_to_id m (fst l) \<noteq> None \<and> name_to_id m (fst (snd l)) \<noteq> None"
  shows "map (\<lambda>x. (Some (fst x), snd x)) (row_of (map (line_edge m) xs) u) =
         map (\<lambda>l. (name_to_id m (fst (snd l)), line_weight (snd (snd l))))
           (filter (\<lambda>l. name_to_id m (fst l) = Some (int u)) xs)"
  using assms
proof (induction xs)
  case Nil
  then show ?case by (simp add: row_of_def)
next
  case (Cons l xs)
  have k: "name_to_id m (fst l) \<noteq> None" "name_to_id m (fst (snd l)) \<noteq> None"
    using Cons.prems by simp_all
  note e = line_edge_known [OF k]
  have ih: "map (\<lambda>x. (Some (fst x), snd x)) (row_of (map (line_edge m) xs) u) =
         map (\<lambda>l. (name_to_id m (fst (snd l)), line_weight (snd (snd l))))
           (filter (\<lambda>l. name_to_id m (fst l) = Some (int u)) xs)"
    using Cons by simp
  show ?case
    using ih e by (simp add: row_of_def)
qed

lemma weights_file_mapper:
  "map_sum id (\<lambda>x. (name_to_id (snd x) ''a'', name_to_id (snd x) ''b'', name_to_id (snd x) ''c''))
     (loadGraphFromFile (Some weights_file) new_mapper) = Inr (Some 0, Some 1, Some 2)"
  by (simp add: loader_eval weights_file_def eval_nat_numeral)

text \<open>
  Claim C7. Every edge line of the file appears in the built graph with its own
  sanitized weight: row \<open>u\<close> of the graph holds, in the order of the file, exactly the
  edge lines whose source name has the id \<open>u\<close>, each with the id of its destination name
  and with the value of \<open>line_weight\<close> on its own third column, and the source name of
  every edge line has an id below the number of nodes, so that no line is left out. The
  value of \<open>line_weight\<close> is the absolute value of the input weight, \<open>1e-4\<close> when the
  input weight is 0 (so \<open>1e-4\<close> for the weight 0 and 2.5 for the weight -2.5), and 1
  when the line has no weight. All the stored weights are positive.
\<close>

theorem loader_weights:
  "\<exists>g m. loadGraphFromFile (Some ls) new_mapper = Inr (g, m) \<and>
     (\<forall>u<nat (num_nodes g).
        map (\<lambda>k. (Some (col_indices g ! k), edge_weights g ! k)) (row_edges g u) =
        line_row m ls u) \<and>
     (\<forall>l\<in>set (edge_lines ls).
        \<exists>u<nat (num_nodes g). name_to_id m (fst l) = Some (int u)) \<and>
     num_edges g = int (length (edge_lines ls)) \<and>
     length (edge_weights g) = length (edge_lines ls) \<and>
     mset (edge_weights g) = mset (map (\<lambda>l. line_weight (snd (snd l))) (edge_lines ls)) \<and>
     (\<forall>x. line_weight (Some x) = (if x = 0 then 1 / 10000 else \<bar>x\<bar>)) \<and>
     line_weight None = 1 \<and>
     line_weight (Some 0) = 1 / 10000 \<and>
     line_weight (Some (- 5 / 2)) = 5 / 2 \<and>
     (\<forall>w\<in>set (edge_weights g). 0 < w)"
proof -
  obtain es m where rl: "read_lines ls new_mapper [] = (es, m)"
    by (cases "read_lines ls new_mapper []")
  let ?N = "length (id_to_name m)"
  obtain g where g: "loadGraphFromFile (Some ls) new_mapper = Inr (g, m)"
    "num_nodes g = int ?N"
    "edge_weights g = map snd (concat (map (row_of es) [0..<?N]))"
    "length (concat (map (row_of es) [0..<?N])) = length es"
    "edges_below (int ?N) es"
    using loader_result [OF rl] by blast
  obtain g' where g': "loadGraphFromFile (Some ls) new_mapper = Inr (g', m)" "csr_ok g'"
    "num_edges g' = int (length (edge_columns ls))"
    "\<forall>u<nat (num_nodes g').
        map (\<lambda>k. (col_indices g' ! k, edge_weights g' ! k)) (row_edges g' u) = row_of es u"
    using loader_graph [OF rl] by blast
  have gg: "g' = g" using g(1) g'(1) by simp
  note ok = g'(2) [unfolded gg] and ne = g'(3) [unfolded gg] and rows = g'(4) [unfolded gg]
  have es: "es = map (line_edge m) (edge_lines ls)"
    and known: "\<forall>l\<in>set (edge_lines ls). name_to_id m (fst l) \<noteq> None \<and>
                                      name_to_id m (fst (snd l)) \<noteq> None"
    using read_lines_edges [OF rl] by simp_all
  have row: "map (\<lambda>k. (Some (col_indices g ! k), edge_weights g ! k)) (row_edges g u) =
             line_row m ls u" if "u < nat (num_nodes g)" for u
  proof -
    have "map (\<lambda>k. (Some (col_indices g ! k), edge_weights g ! k)) (row_edges g u) =
          map (\<lambda>x. (Some (fst x), snd x))
            (map (\<lambda>k. (col_indices g ! k, edge_weights g ! k)) (row_edges g u))"
      by simp
    also have "\<dots> = map (\<lambda>x. (Some (fst x), snd x)) (row_of es u)"
      using rows that by simp
    also have "\<dots> = line_row m ls u"
      unfolding es line_row_def by (rule row_of_lines [OF known])
    finally show ?thesis .
  qed
  have src: "\<exists>u<nat (num_nodes g). name_to_id m (fst l) = Some (int u)"
    if l: "l \<in> set (edge_lines ls)" for l
  proof -
    have k: "name_to_id m (fst l) \<noteq> None" "name_to_id m (fst (snd l)) \<noteq> None"
      using known l by simp_all
    have "line_edge m l \<in> set es" using l es by simp
    then have b: "0 \<le> e_u (line_edge m l)" "e_u (line_edge m l) < int ?N"
      using g(5) by (auto simp: edges_below_def)
    have "name_to_id m (fst l) = Some (int (nat (e_u (line_edge m l))))"
      using line_edge_known(1) [OF k] b by simp
    moreover have "nat (e_u (line_edge m l)) < nat (num_nodes g)"
      using b g(2) by simp
    ultimately show ?thesis by blast
  qed
  have len: "length (edge_weights g) = length (edge_lines ls)"
    using g(3,4) es by simp
  have cols: "map line_weight (edge_columns ls) =
              map (\<lambda>l. line_weight (snd (snd l))) (edge_lines ls)"
    by (simp add: edge_columns_lines comp_def)
  have ws: "map e_w es = map line_weight (edge_columns ls)"
    using read_lines_ok [OF new_mapper_ok _ rl] by (simp add: edges_below_def)
  have "mset (edge_weights g) = image_mset snd (mset (concat (map (row_of es) [0..<?N])))"
    by (simp add: g(3))
  also have "\<dots> = image_mset snd (mset (map (\<lambda>e. (e_v e, e_w e)) es))"
    using g(5) by (subst mset_rows) (auto simp: edges_below_def)
  also have "\<dots> = mset (map e_w es)"
    by (simp add: image_mset.compositionality comp_def)
  finally have m: "mset (edge_weights g) =
                   mset (map (\<lambda>l. line_weight (snd (snd l))) (edge_lines ls))"
    by (simp only: ws cols)
  have lw: "line_weight (Some x) = (if x = 0 then 1 / 10000 else \<bar>x\<bar>)" for x
    by (simp add: line_weight_def)
  have lwn: "line_weight None = 1"
    by (simp add: line_weight_def)
  have pos: "\<forall>w\<in>set (edge_weights g). 0 < w"
    using ok by (simp add: csr_ok_def)
  have ne': "num_edges g = int (length (edge_lines ls))"
    using ne by (simp add: edge_columns_lines)
  show ?thesis
    apply (rule exI [of _ g], rule exI [of _ m])
    apply (intro conjI allI impI ballI)
              apply (rule g(1))
             apply (erule row)
            apply (erule src)
           apply (rule ne')
          apply (rule len)
         apply (rule m)
        apply (rule lw)
       apply (rule lwn)
      apply (simp add: lw)
     apply (simp add: lw)
    using pos apply blast
    done
qed

theorem loader_weights_witness:
  "map_sum id fst (loadGraphFromFile (Some weights_file) new_mapper) = Inr weights_graph \<and>
   edge_lines weights_file =
     [(''a'', ''b'', None), (''b'', ''c'', Some 0), (''c'', ''a'', Some (- 5 / 2)),
      (''a'', ''c'', Some 3)] \<and>
   map (\<lambda>k. (Some (col_indices weights_graph ! k), edge_weights weights_graph ! k))
     (row_edges weights_graph 0) = [(Some 1, 1), (Some 2, 3)] \<and>
   map (\<lambda>k. (Some (col_indices weights_graph ! k), edge_weights weights_graph ! k))
     (row_edges weights_graph 1) = [(Some 2, 1 / 10000)] \<and>
   map (\<lambda>k. (Some (col_indices weights_graph ! k), edge_weights weights_graph ! k))
     (row_edges weights_graph 2) = [(Some 0, 5 / 2)] \<and>
   0 < edge_weights weights_graph ! 2"
proof -
  from loader_weights [of weights_file]
  obtain g m where g: "loadGraphFromFile (Some weights_file) new_mapper = Inr (g, m)"
    and rows: "\<forall>u<nat (num_nodes g).
        map (\<lambda>k. (Some (col_indices g ! k), edge_weights g ! k)) (row_edges g u) =
        line_row m weights_file u"
    and pos: "\<forall>w\<in>set (edge_weights g). 0 < w"
    by blast
  have eq: "g = weights_graph" using g weights_file_graph by simp
  have ids: "name_to_id m ''a'' = Some 0" "name_to_id m ''b'' = Some 1"
    "name_to_id m ''c'' = Some 2"
    using g weights_file_mapper by simp_all
  have lines: "edge_lines weights_file =
     [(''a'', ''b'', None), (''b'', ''c'', Some 0), (''c'', ''a'', Some (- 5 / 2)),
      (''a'', ''c'', Some 3)]"
    by (simp add: weights_file_def)
  have n: "nat (num_nodes weights_graph) = 3" by (simp add: weights_graph_def)
  have r0: "line_row m weights_file 0 = [(Some 1, 1), (Some 2, 3)]"
    and r1: "line_row m weights_file 1 = [(Some 2, 1 / 10000)]"
    and r2: "line_row m weights_file 2 = [(Some 0, 5 / 2)]"
    by (simp_all add: line_row_def lines ids line_weight_def)
  have "map (\<lambda>k. (Some (col_indices weights_graph ! k), edge_weights weights_graph ! k))
          (row_edges weights_graph u) = line_row m weights_file u" if "u < 3" for u
    using rows that unfolding eq n by blast
  from this [of 0] this [of 1] this [of 2]
  have rs: "map (\<lambda>k. (Some (col_indices weights_graph ! k), edge_weights weights_graph ! k))
     (row_edges weights_graph 0) = [(Some 1, 1), (Some 2, 3)]"
   "map (\<lambda>k. (Some (col_indices weights_graph ! k), edge_weights weights_graph ! k))
     (row_edges weights_graph 1) = [(Some 2, 1 / 10000)]"
   "map (\<lambda>k. (Some (col_indices weights_graph ! k), edge_weights weights_graph ! k))
     (row_edges weights_graph 2) = [(Some 0, 5 / 2)]"
    by (simp_all only: r0 r1 r2)
  moreover have "0 < edge_weights weights_graph ! 2"
    using pos unfolding eq by (simp add: weights_graph_def)
  ultimately show ?thesis using weights_file_graph lines by simp
qed

section \<open>The weighted neighbour selection\<close>

lemma select_edge_scan:
  assumes "Suc u < length (row_ptr g)" and "row_ptr g ! Suc u = int h"
    and "h \<le> length (col_indices g)" and "h \<le> length (edge_weights g)"
    and "nat (row_ptr g ! u) = lo"
  shows "lo \<le> k \<Longrightarrow> k \<le> h \<Longrightarrow> acc = (\<Sum>j\<leftarrow>[lo..<k]. edge_weights g ! j) \<Longrightarrow>
    select_edge g target (int u) (int k) acc reads =
      Some (case find (\<lambda>k'. target \<le> cum_weight g u k') [k..<h] of
              Some k' \<Rightarrow> (col_indices g ! k', reads @ map int [k..<Suc k'])
            | None \<Rightarrow> (int u, reads @ map int [k..<h]))"
proof (induction "h - k" arbitrary: k acc reads)
  case 0
  have hi: "vec_at (row_ptr g) (int u + 1) = Some (int h)"
    using assms(1,2) vec_at_int [of "Suc u" "row_ptr g"] by (simp add: add.commute)
  from 0 have "k = h" by simp
  then show ?case by (subst select_edge.simps) (simp add: hi)
next
  case (Suc n)
  have hi: "vec_at (row_ptr g) (int u + 1) = Some (int h)"
    using assms(1,2) vec_at_int [of "Suc u" "row_ptr g"] by (simp add: add.commute)
  from Suc have kh: "k < h" by simp
  have cum: "cum_weight g u k = acc + edge_weights g ! k"
    using Suc.prems(1,3) assms(5) by (simp add: cum_weight_def)
  have up: "[k..<h] = k # [Suc k..<h]" using kh by (simp add: upt_conv_Cons)
  show ?case
  proof (cases "target \<le> acc + edge_weights g ! k")
    case True
    then show ?thesis
      using kh assms(3,4)
      by (subst select_edge.simps) (simp add: hi vec_at_int Let_def up cum)
  next
    case False
    have n: "n = h - Suc k" using Suc.hyps(2) by simp
    have acc': "acc + edge_weights g ! k = (\<Sum>j\<leftarrow>[lo..<Suc k]. edge_weights g ! j)"
      using Suc.prems(1,3) by simp
    have ih: "select_edge g target (int u) (int (Suc k)) (acc + edge_weights g ! k) (reads @ [int k]) =
      Some (case find (\<lambda>k'. target \<le> cum_weight g u k') [Suc k..<h] of
              Some k' \<Rightarrow> (col_indices g ! k', (reads @ [int k]) @ map int [Suc k..<Suc k'])
            | None \<Rightarrow> (int u, (reads @ [int k]) @ map int [Suc k..<h]))"
      by (rule Suc.hyps(1) [OF n _ _ acc']) (use kh Suc.prems(1) in auto)
    have fs: "find (\<lambda>k'. target \<le> cum_weight g u k') [Suc k..<h] = Some k' \<Longrightarrow> k < k'" for k'
      by (auto simp: find_Some_iff)
    have "select_edge g target (int u) (int k) acc reads =
          select_edge g target (int u) (int k + 1) (acc + edge_weights g ! k) (reads @ [int k])"
      using kh assms(3,4) False
      by (subst select_edge.simps) (simp add: hi vec_at_int Let_def)
    then show ?thesis
      using ih False fs
      by (auto simp: up cum add.commute upt_conv_Cons split: option.splits)
  qed
qed

lemma scan_row:
  assumes "csr_shape g" and "0 \<le> cur" and "cur < num_nodes g"
  shows "select_edge g target cur (row_ptr g ! nat cur) 0 [] =
           Some (case first_hit g target (nat cur) of
                   Some k \<Rightarrow> (col_indices g ! k, map int [nat (row_ptr g ! nat cur)..<Suc k])
                 | None \<Rightarrow> (cur, map int (row_edges g (nat cur))))"
proof -
  let ?u = "nat cur"
  have uN: "?u < nat (num_nodes g)" using assms(2,3) by simp
  note row = shape_row [OF assms(1) uN]
  have lens: "length (row_ptr g) = nat (num_nodes g) + 1"
    "length (col_indices g) = length (edge_weights g)"
    using assms(1) by (simp_all add: csr_shape_def)
  define h where "h = nat (row_ptr g ! Suc ?u)"
  define lo where "lo = nat (row_ptr g ! ?u)"
  have h: "row_ptr g ! Suc ?u = int h" and lo: "row_ptr g ! ?u = int lo" and "lo \<le> h"
    and hE: "h \<le> length (edge_weights g)"
    using row by (auto simp: h_def lo_def)
  have p1: "Suc ?u < length (row_ptr g)" using uN lens by simp
  have p3: "h \<le> length (col_indices g)" using hE lens by simp
  have "select_edge g target (int ?u) (int lo) 0 [] =
      Some (case find (\<lambda>k'. target \<le> cum_weight g ?u k') [lo..<h] of
              Some k' \<Rightarrow> (col_indices g ! k', [] @ map int [lo..<Suc k'])
            | None \<Rightarrow> (int ?u, [] @ map int [lo..<h]))"
    by (rule select_edge_scan [OF p1 h p3 hE lo_def [symmetric] le_refl \<open>lo \<le> h\<close>]) simp
  then show ?thesis
    using assms(2) row(1)
    by (simp add: first_hit_def row_edges_def h_def lo_def split: option.splits)
qed

lemma first_hit_Some:
  assumes "first_hit g target u = Some k"
  shows "k \<in> set (row_edges g u)" and "target \<le> cum_weight g u k"
    and "\<forall>j\<in>set (row_edges g u). j < k \<longrightarrow> \<not> target \<le> cum_weight g u j"
proof -
  obtain i where i: "i < length (row_edges g u)" "target \<le> cum_weight g u (row_edges g u ! i)"
    "k = row_edges g u ! i" "\<forall>j<i. \<not> target \<le> cum_weight g u (row_edges g u ! j)"
    using assms unfolding first_hit_def find_Some_iff by blast
  show "k \<in> set (row_edges g u)" using i(1,3) by simp
  show "target \<le> cum_weight g u k" using i(2,3) by simp
  show "\<forall>j\<in>set (row_edges g u). j < k \<longrightarrow> \<not> target \<le> cum_weight g u j"
  proof (intro ballI impI)
    fix j assume j: "j \<in> set (row_edges g u)" "j < k"
    let ?lo = "nat (row_ptr g ! u)"
    have nth: "row_edges g u ! n = ?lo + n" if "n < length (row_edges g u)" for n
      using that by (simp add: row_edges_def)
    have "?lo \<le> j" using j(1) by (simp add: row_edges_def)
    then have jj: "j = row_edges g u ! (j - ?lo)" "j - ?lo < i"
      using j i(1,3) nth [of i] nth [of "j - ?lo"] by (auto simp: row_edges_def)
    show "\<not> target \<le> cum_weight g u j"
      using i(4) [rule_format, OF jj(2)] jj(1) by simp
  qed
qed

lemma first_hit_None:
  "first_hit g target u = None \<longleftrightarrow> (\<forall>k\<in>set (row_edges g u). \<not> target \<le> cum_weight g u k)"
  by (auto simp: first_hit_def find_None_iff)

lemma walk_stays:
  assumes "csr_shape g" and "0 \<le> cur" and "cur < num_nodes g"
    and "first_hit g (y * out_weight_sum g ! nat cur) (nat cur) = None"
    and "vec_at visits cur = Some c" and "\<not> x < alpha" and "out_weight_sum g ! nat cur \<noteq> 0"
  shows "walk g alpha cur visits (x # y # us) = walk g alpha cur (visits[nat cur := c + 1]) us"
proof -
  have lens: "length (row_ptr g) = nat (num_nodes g) + 1"
    "length (out_weight_sum g) = nat (num_nodes g)"
    using assms(1) by (simp_all add: csr_shape_def)
  have ows: "vec_at (out_weight_sum g) cur = Some (out_weight_sum g ! nat cur)"
    using assms(2,3) lens by (intro vec_at_in) auto
  have rp: "vec_at (row_ptr g) cur = Some (row_ptr g ! nat cur)"
    using assms(2,3) lens by (intro vec_at_in) auto
  have sel: "select_edge g (y * out_weight_sum g ! nat cur) cur (row_ptr g ! nat cur) 0 [] =
      Some (cur, map int (row_edges g (nat cur)))"
    using scan_row [OF assms(1-3), of "y * out_weight_sum g ! nat cur"] assms(4) by simp
  show ?thesis
    using assms(5-7) by (subst walk.simps) (simp add: ows rp sel Let_def)
qed

lemma exact_draw_hits:
  assumes "csr_ok g" and "0 \<le> cur" and "cur < num_nodes g"
    and "out_weight_sum g ! nat cur \<noteq> 0" and "y < 1"
  shows "first_hit g (y * out_weight_sum g ! nat cur) (nat cur) \<noteq> None"
proof -
  let ?u = "nat cur" and ?lo = "nat (row_ptr g ! nat cur)" and ?h = "nat (row_ptr g ! Suc (nat cur))"
  have uN: "?u < nat (num_nodes g)" using assms(2,3) by simp
  have pos: "0 < out_weight_sum g ! ?u"
    using ok_out_weight_sum(1) [OF assms(1) uN] assms(4) by simp
  have ne: "row_edges g ?u \<noteq> []"
    using ok_out_weight_sum(2) [OF assms(1) uN] assms(4) by simp
  then have "\<not> (?h = 0 \<or> ?h \<le> ?lo)" unfolding row_edges_def upt_eq_Nil_conv .
  then have lt: "?lo < ?h" by linarith
  have "?lo \<le> ?h - 1 \<and> ?h - 1 < ?h" using lt by linarith
  then have last: "?h - 1 \<in> set (row_edges g ?u)"
    unfolding row_edges_def set_upt atLeastLessThan_iff .
  have "Suc (?h - 1) = ?h" using lt by linarith
  then have "cum_weight g ?u (?h - 1) = (\<Sum>k\<leftarrow>row_edges g ?u. edge_weights g ! k)"
    by (simp add: cum_weight_def row_edges_def)
  also have "\<dots> = out_weight_sum g ! ?u"
    using assms(1) uN by (simp add: csr_ok_def)
  finally have "y * out_weight_sum g ! ?u \<le> cum_weight g ?u (?h - 1)"
    using pos assms(5) by (simp add: mult_le_cancel_right1)
  then show ?thesis using last by (auto simp: first_hit_None)
qed

text \<open>
  Claim C10. On a well-formed graph, the edge scan of the weighted neighbour selection at
  a node \<open>cur\<close> of the graph ends and returns (\<open>select_edge\<close> is a total function and
  its value is not \<open>None\<close>); it reads \<^verbatim>\<open>edge_weights\<close> and \<^verbatim>\<open>col_indices\<close> only at
  indices from \<open>row_ptr[cur]\<close> to \<open>row_ptr[cur + 1]\<close>, the second excluded. When some edge
  of the row has a running cumulative weight that reaches or exceeds the draw, the scan
  stops at the first such edge and the walk moves to its destination. When there is none,
  the scan reads the whole row and the walk stays at \<open>cur\<close>: the walk loop goes on from
  \<open>cur\<close> with the visit counted, and counts \<open>cur\<close> again at its next step. In the exact
  arithmetic of the model this second case does not occur when \<^verbatim>\<open>out_weight_sum\<close> is
  the sum of the weights of the row and the uniform draw \<open>y\<close> is below 1.
\<close>

theorem weighted_selection:
  assumes "csr_shape g" and "0 \<le> cur" and "cur < num_nodes g"
  shows "\<exists>nxt reads.
     select_edge g target cur (row_ptr g ! nat cur) 0 [] = Some (nxt, reads) \<and>
     (\<forall>k\<in>set reads. row_ptr g ! nat cur \<le> k \<and> k < row_ptr g ! nat (cur + 1)) \<and>
     (case first_hit g target (nat cur) of
        Some k \<Rightarrow>
          nxt = col_indices g ! k \<and> reads = map int [nat (row_ptr g ! nat cur)..<Suc k] \<and>
          k \<in> set (row_edges g (nat cur)) \<and> target \<le> cum_weight g (nat cur) k \<and>
          (\<forall>j\<in>set (row_edges g (nat cur)). j < k \<longrightarrow> \<not> target \<le> cum_weight g (nat cur) j)
      | None \<Rightarrow>
          nxt = cur \<and> reads = map int (row_edges g (nat cur)) \<and>
          (\<forall>k\<in>set (row_edges g (nat cur)). \<not> target \<le> cum_weight g (nat cur) k) \<and>
          (\<forall>visits c x us alpha.
             vec_at visits cur = Some c \<and> \<not> x < alpha \<and> out_weight_sum g ! nat cur \<noteq> 0 \<and>
             target = y * out_weight_sum g ! nat cur \<longrightarrow>
             walk g alpha cur visits (x # y # us) =
               walk g alpha cur (visits[nat cur := c + 1]) us)) \<and>
     (csr_ok g \<and> out_weight_sum g ! nat cur \<noteq> 0 \<and> y < 1 \<and>
      target = y * out_weight_sum g ! nat cur \<longrightarrow> first_hit g target (nat cur) \<noteq> None)"
proof -
  let ?u = "nat cur"
  have uN: "?u < nat (num_nodes g)" using assms(2,3) by simp
  note row = shape_row [OF assms(1) uN]
  have suc: "nat (cur + 1) = Suc ?u" using assms(2) by simp
  note sel = scan_row [OF assms, of target]
  have exact: "csr_ok g \<and> out_weight_sum g ! ?u \<noteq> 0 \<and> y < 1 \<and>
      target = y * out_weight_sum g ! ?u \<longrightarrow> first_hit g target ?u \<noteq> None"
    using exact_draw_hits [OF _ assms(2,3), of y] by blast
  show ?thesis
  proof (cases "first_hit g target ?u")
    case None
    have reads: "\<forall>k\<in>set (map int (row_edges g ?u)). row_ptr g ! ?u \<le> k \<and> k < row_ptr g ! nat (cur + 1)"
      using row(1) unfolding suc by (auto simp: row_edges_def)
    have stays: "\<forall>visits c x us alpha.
             vec_at visits cur = Some c \<and> \<not> x < alpha \<and> out_weight_sum g ! ?u \<noteq> 0 \<and>
             target = y * out_weight_sum g ! ?u \<longrightarrow>
             walk g alpha cur visits (x # y # us) = walk g alpha cur (visits[?u := c + 1]) us"
      using walk_stays [OF assms, of y] None by blast
    have none: "\<forall>k\<in>set (row_edges g ?u). \<not> target \<le> cum_weight g ?u k"
      using None by (simp add: first_hit_None)
    have s: "select_edge g target cur (row_ptr g ! nat cur) 0 [] =
        Some (cur, map int (row_edges g ?u))"
      using sel by (simp only: None option.case)
    have body: "cur = cur \<and> map int (row_edges g ?u) = map int (row_edges g ?u) \<and>
          (\<forall>k\<in>set (row_edges g ?u). \<not> target \<le> cum_weight g ?u k) \<and>
          (\<forall>visits c x us alpha.
             vec_at visits cur = Some c \<and> \<not> x < alpha \<and> out_weight_sum g ! ?u \<noteq> 0 \<and>
             target = y * out_weight_sum g ! ?u \<longrightarrow>
             walk g alpha cur visits (x # y # us) = walk g alpha cur (visits[?u := c + 1]) us)"
      by (intro conjI refl none stays)
    show ?thesis
      apply (rule exI [of _ cur])
      apply (rule exI [of _ "map int (row_edges g ?u)"])
      apply (simp only: None option.case)
      apply (intro conjI s reads exact [unfolded None] body [THEN conjunct2, THEN conjunct2, THEN conjunct1]
          body [THEN conjunct2, THEN conjunct2, THEN conjunct2] refl)
      done
  next
    case (Some k)
    note fh = first_hit_Some [OF Some]
    have "k < nat (row_ptr g ! Suc ?u)" using fh(1) by (simp add: row_edges_def)
    then have reads: "\<forall>j\<in>set (map int [nat (row_ptr g ! ?u)..<Suc k]).
        row_ptr g ! ?u \<le> j \<and> j < row_ptr g ! nat (cur + 1)"
      using row(1) unfolding suc by auto
    have s: "select_edge g target cur (row_ptr g ! nat cur) 0 [] =
        Some (col_indices g ! k, map int [nat (row_ptr g ! ?u)..<Suc k])"
      using sel by (simp only: Some option.case)
    show ?thesis
      apply (rule exI [of _ "col_indices g ! k"])
      apply (rule exI [of _ "map int [nat (row_ptr g ! ?u)..<Suc k]"])
      apply (simp only: Some option.case)
      apply (intro conjI s reads fh refl impI)
      apply simp
      done
  qed
qed

lemma weights_graph_ok: "csr_ok weights_graph"
  by (simp add: csr_ok_def csr_shape_def weights_graph_def row_edges_def all_less_3 upt_rec)

lemma loose_graph_shape: "csr_shape loose_graph"
  by (simp add: csr_shape_def loose_graph_def weights_graph_def)

lemma first_hit_weights_graph: "first_hit weights_graph 2 0 = Some 1"
  by (simp add: first_hit_def cum_weight_def row_edges_def weights_graph_def upt_rec)

lemma first_hit_loose_graph: "first_hit loose_graph (9 / 2) 0 = None"
  by (simp add: first_hit_def cum_weight_def row_edges_def loose_graph_def weights_graph_def upt_rec)

theorem weighted_selection_witness:
  "csr_shape weights_graph \<and> csr_shape loose_graph \<and>
   first_hit weights_graph 2 0 = Some 1 \<and>
   select_edge weights_graph 2 0 0 0 [] = Some (2, [0, 1]) \<and>
   first_hit loose_graph (9 / 2) 0 = None \<and>
   select_edge loose_graph (9 / 2) 0 0 0 [] = Some (0, [0, 1]) \<and>
   walk loose_graph (1 / 2) 0 [0, 0, 0] [9 / 10, 9 / 10, 1 / 10] = Done ([2, 0, 0], [])"
proof -
  note sh = ok_shape [OF weights_graph_ok]
  have in0: "(0::int) \<le> 0" "0 < num_nodes weights_graph" "0 < num_nodes loose_graph"
    by (simp_all add: weights_graph_def loose_graph_def)
  have rp: "row_ptr weights_graph ! nat 0 = 0" "row_ptr loose_graph ! nat 0 = 0"
    by (simp_all add: weights_graph_def loose_graph_def)
  from weighted_selection [OF sh in0(1,2), of 2 "1 / 2"]
  obtain nxt reads where a: "select_edge weights_graph 2 0 (row_ptr weights_graph ! nat 0) 0 [] =
      Some (nxt, reads)"
    and b: "case first_hit weights_graph 2 (nat 0) of
        Some k \<Rightarrow>
          nxt = col_indices weights_graph ! k \<and>
          reads = map int [nat (row_ptr weights_graph ! nat 0)..<Suc k] \<and>
          k \<in> set (row_edges weights_graph (nat 0)) \<and> 2 \<le> cum_weight weights_graph (nat 0) k \<and>
          (\<forall>j\<in>set (row_edges weights_graph (nat 0)). j < k \<longrightarrow> \<not> 2 \<le> cum_weight weights_graph (nat 0) j)
      | None \<Rightarrow>
          nxt = 0 \<and> reads = map int (row_edges weights_graph (nat 0)) \<and>
          (\<forall>k\<in>set (row_edges weights_graph (nat 0)). \<not> 2 \<le> cum_weight weights_graph (nat 0) k) \<and>
          (\<forall>visits c x us alpha.
             vec_at visits 0 = Some c \<and> \<not> x < alpha \<and> out_weight_sum weights_graph ! nat 0 \<noteq> 0 \<and>
             2 = 1 / 2 * out_weight_sum weights_graph ! nat 0 \<longrightarrow>
             walk weights_graph alpha 0 visits (x # 1 / 2 # us) =
               walk weights_graph alpha 0 (visits[nat 0 := c + 1]) us)"
    by blast
  have "nxt = col_indices weights_graph ! 1 \<and>
        reads = map int [nat (row_ptr weights_graph ! 0)..<Suc 1]"
    using b by (simp only: nat_0 first_hit_weights_graph option.case)
  then have hit: "nxt = 2" "reads = [0, 1]"
    by (simp_all add: weights_graph_def upt_rec)
  from weighted_selection [OF loose_graph_shape in0(1,3), of "9 / 2" "9 / 10"]
  obtain nxt' reads' where a': "select_edge loose_graph (9 / 2) 0 (row_ptr loose_graph ! nat 0) 0 [] =
      Some (nxt', reads')"
    and b': "case first_hit loose_graph (9 / 2) (nat 0) of
        Some k \<Rightarrow>
          nxt' = col_indices loose_graph ! k \<and>
          reads' = map int [nat (row_ptr loose_graph ! nat 0)..<Suc k] \<and>
          k \<in> set (row_edges loose_graph (nat 0)) \<and> 9 / 2 \<le> cum_weight loose_graph (nat 0) k \<and>
          (\<forall>j\<in>set (row_edges loose_graph (nat 0)). j < k \<longrightarrow> \<not> 9 / 2 \<le> cum_weight loose_graph (nat 0) j)
      | None \<Rightarrow>
          nxt' = 0 \<and> reads' = map int (row_edges loose_graph (nat 0)) \<and>
          (\<forall>k\<in>set (row_edges loose_graph (nat 0)). \<not> 9 / 2 \<le> cum_weight loose_graph (nat 0) k) \<and>
          (\<forall>visits c x us alpha.
             vec_at visits 0 = Some c \<and> \<not> x < alpha \<and> out_weight_sum loose_graph ! nat 0 \<noteq> 0 \<and>
             9 / 2 = 9 / 10 * out_weight_sum loose_graph ! nat 0 \<longrightarrow>
             walk loose_graph alpha 0 visits (x # 9 / 10 # us) =
               walk loose_graph alpha 0 (visits[nat 0 := c + 1]) us)"
    by blast
  have b2: "nxt' = 0 \<and> reads' = map int (row_edges loose_graph 0) \<and>
          (\<forall>k\<in>set (row_edges loose_graph 0). \<not> 9 / 2 \<le> cum_weight loose_graph 0 k) \<and>
          (\<forall>visits c x us alpha.
             vec_at visits 0 = Some c \<and> \<not> x < alpha \<and> out_weight_sum loose_graph ! 0 \<noteq> 0 \<and>
             9 / 2 = 9 / 10 * out_weight_sum loose_graph ! 0 \<longrightarrow>
             walk loose_graph alpha 0 visits (x # 9 / 10 # us) =
               walk loose_graph alpha 0 (visits[0 := c + 1]) us)"
    using b' [unfolded nat_0 first_hit_loose_graph option.case] .
  have miss: "nxt' = 0" "reads' = [0, 1]"
    using b2 by (simp_all add: row_edges_def loose_graph_def weights_graph_def upt_rec)
  have stays: "\<forall>visits c x us alpha.
             vec_at visits 0 = Some c \<and> \<not> x < alpha \<and> out_weight_sum loose_graph ! 0 \<noteq> 0 \<and>
             9 / 2 = 9 / 10 * out_weight_sum loose_graph ! 0 \<longrightarrow>
             walk loose_graph alpha 0 visits (x # 9 / 10 # us) =
               walk loose_graph alpha 0 (visits[0 := c + 1]) us"
    using b2 by blast
  have "walk loose_graph (1 / 2) 0 [0, 0, 0] [9 / 10, 9 / 10, 1 / 10] =
        walk loose_graph (1 / 2) 0 ([0, 0, 0][0 := 0 + 1]) [1 / 10]"
    by (rule stays [rule_format]) (simp add: vec_at_def loose_graph_def)
  also have "\<dots> = Done ([2, 0, 0], [])"
    by (subst walk.simps) (simp add: vec_at_def)
  finally have w: "walk loose_graph (1 / 2) 0 [0, 0, 0] [9 / 10, 9 / 10, 1 / 10] = Done ([2, 0, 0], [])" .
  show ?thesis
    using sh loose_graph_shape first_hit_weights_graph first_hit_loose_graph
      a [unfolded rp hit] a' [unfolded rp miss] w
    by (intro conjI)
qed

section \<open>The scores of MonteCarloEngine in exact arithmetic\<close>

text \<open>
  Every walk counts at least one visit, and the normalization divides every counter by
  the sum of the counters. In the exact arithmetic of the model the scores of a run with
  a seed and at least one walk therefore sum to 1. The program divides and adds in
  double precision, and the model does not express the rounding of these operations.
\<close>

lemma normalize_result:
  assumes "length visits = N"
  shows "length sc = N \<Longrightarrow> i \<le> N \<Longrightarrow>
         \<exists>sc'. normalize_scores visits tot (int N) (int i) sc = Some sc' \<and> length sc' = N \<and>
           (\<forall>j<N. sc' ! j = (if i \<le> j then real_of_int (visits ! j) / real_of_int tot else sc ! j))"
proof (induction "N - i" arbitrary: i sc)
  case 0
  then have "i = N" by simp
  then show ?case using 0 by (subst normalize_scores.simps) simp
next
  case (Suc n)
  then have iN: "i < N" by simp
  let ?sc = "sc[i := real_of_int (visits ! i) / real_of_int tot]"
  have unf: "normalize_scores visits tot (int N) (int i) sc = normalize_scores visits tot (int N) (int (Suc i)) ?sc"
    using iN assms Suc.prems
    by (subst normalize_scores.simps) (simp add: vec_at_int vec_put_int add.commute)
  have n: "n = N - Suc i" using Suc.hyps(2) by simp
  have "\<exists>sc'. normalize_scores visits tot (int N) (int (Suc i)) ?sc = Some sc' \<and> length sc' = N \<and>
           (\<forall>j<N. sc' ! j = (if Suc i \<le> j then real_of_int (visits ! j) / real_of_int tot else ?sc ! j))"
    by (rule Suc.hyps(1) [OF n]) (use iN Suc.prems in auto)
  then obtain sc' where sc': "normalize_scores visits tot (int N) (int (Suc i)) ?sc = Some sc'"
    "length sc' = N"
    "\<forall>j<N. sc' ! j = (if Suc i \<le> j then real_of_int (visits ! j) / real_of_int tot else ?sc ! j)"
    by blast
  have "\<forall>j<N. sc' ! j = (if i \<le> j then real_of_int (visits ! j) / real_of_int tot else sc ! j)"
  proof (intro allI impI)
    fix j assume j: "j < N"
    show "sc' ! j = (if i \<le> j then real_of_int (visits ! j) / real_of_int tot else sc ! j)"
      using sc'(3) [rule_format, OF j] j Suc.prems(1)
      by (cases "j = i") (auto simp: nth_list_update)
  qed
  then show ?case using unf sc'(1,2) by simp
qed

lemma foldl_add_sum_list: "foldl (\<lambda>t v. t + v) (a::int) xs = a + sum_list xs"
  by (induction xs arbitrary: a) simp_all

lemma sum_list_div_const:
  "(\<Sum>v\<leftarrow>xs. real_of_int v / c) = real_of_int (sum_list xs) / c"
  by (induction xs) (simp_all add: add_divide_distrib)

lemma normalize_sum_exact:
  assumes "normalize_scores visits (foldl (\<lambda>t v. t + v) 0 visits) (int (length visits)) 0
             (replicate (length visits) 0) = Some sc"
    and "0 < foldl (\<lambda>t v. t + v) 0 visits"
  shows "sum_list sc = 1"
proof -
  let ?N = "length visits" and ?tot = "foldl (\<lambda>t v. t + v) 0 visits"
  obtain sc' where sc': "normalize_scores visits ?tot (int ?N) (int 0) (replicate ?N 0) = Some sc'"
    "length sc' = ?N" "\<forall>j<?N. sc' ! j = real_of_int (visits ! j) / real_of_int ?tot"
    using normalize_result [OF refl, where sc = "replicate ?N 0" and i = 0 and tot = ?tot and visits = visits]
    by auto
  have "sc = sc'" using assms(1) sc'(1) by simp
  then have "sc = map (\<lambda>v. real_of_int v / real_of_int ?tot) visits"
    using sc'(2,3) by (intro nth_equalityI) auto
  then have "sum_list sc = (\<Sum>v\<leftarrow>visits. real_of_int v / real_of_int ?tot)" by simp
  also have "\<dots> = real_of_int (sum_list visits) / real_of_int ?tot"
    by (rule sum_list_div_const)
  also have "sum_list visits = ?tot" by (simp add: foldl_add_sum_list)
  finally show ?thesis using assms(2) by simp
qed

lemma sum_list_bump:
  "i < length xs \<Longrightarrow> sum_list (xs[i := xs ! i + 1]) = sum_list xs + (1::int)"
proof (induction xs arbitrary: i)
  case Nil
  then show ?case by simp
next
  case (Cons x xs)
  then show ?case by (cases i) simp_all
qed

lemma walk_visits:
  "walk g alpha cur visits us = Done (visits', us') \<Longrightarrow>
   length visits' = length visits \<and> sum_list visits < sum_list visits'"
proof (induction g alpha cur visits us arbitrary: visits' us' rule: walk.induct)
  case (1 graph alpha cur visits us)
  from "1.prems" obtain c where c: "vec_at visits cur = Some c"
    by (subst (asm) walk.simps) (auto split: option.splits)
  then have cur: "0 \<le> cur" "cur < int (length visits)" "c = visits ! nat cur"
    by (auto simp: vec_at_Some)
  let ?v = "visits[nat cur := c + 1]"
  have bump: "length ?v = length visits" "sum_list ?v = sum_list visits + 1"
    using cur sum_list_bump [of "nat cur" visits] by simp_all
  show ?case
  proof (cases us)
    case Nil
    then show ?thesis using "1.prems" c by (subst (asm) walk.simps) simp
  next
    case (Cons x us1)
    show ?thesis
    proof (cases "x < alpha")
      case True
      then have "visits' = ?v"
        using "1.prems" c Cons by (subst (asm) walk.simps) (simp add: Let_def)
      then show ?thesis using bump by simp
    next
      case nx: False
      from "1.prems" obtain ows where ows: "vec_at (out_weight_sum graph) cur = Some ows"
        using c Cons nx by (subst (asm) walk.simps) (auto simp: Let_def split: option.splits)
      show ?thesis
      proof (cases "ows = 0")
        case True
        then have "visits' = ?v"
          using "1.prems" c Cons nx ows by (subst (asm) walk.simps) (simp add: Let_def)
        then show ?thesis using bump by simp
      next
        case nz: False
        from "1.prems" obtain y us2 lo nxt reads where
          us1: "us1 = y # us2" and lo: "vec_at (row_ptr graph) cur = Some lo"
          and sel: "select_edge graph (y * ows) cur lo 0 [] = Some (nxt, reads)"
          and rec: "walk graph alpha nxt ?v us2 = Done (visits', us')"
          using c Cons nx ows nz
          by (subst (asm) walk.simps) (auto simp: Let_def split: option.splits list.splits)
        from "1.IH" [OF c refl Cons nx ows nz us1 lo sel refl rec]
        show ?thesis using bump by simp
      qed
    qed
  qed
qed

lemma walks_visits:
  "walks g seeds alpha total_walks i visits gen = Done (visits', gen') \<Longrightarrow>
   length visits' = length visits \<and> sum_list visits \<le> sum_list visits' \<and>
   (i < total_walks \<longrightarrow> sum_list visits < sum_list visits')"
proof (induction "nat (total_walks - i)" arbitrary: i visits gen)
  case 0
  then have "\<not> i < total_walks" by linarith
  then show ?case using "0.prems" by (subst (asm) walks.simps) simp
next
  case (Suc n)
  then have lt: "i < total_walks" by linarith
  from Suc.prems obtain k ns cur v1 us where
    gen: "int_draws gen = k # ns"
    and w: "walk g alpha cur visits (real_draws gen) = Done (v1, us)"
    and rec: "walks g seeds alpha total_walks (i + 1) v1 \<lparr>int_draws = ns, real_draws = us\<rparr> =
                Done (visits', gen')"
    using lt
    by (subst (asm) walks.simps) (auto split: list.splits option.splits outcome.splits)
  have n: "n = nat (total_walks - (i + 1))" using Suc.hyps(2) by linarith
  from Suc.hyps(1) [OF n rec] walk_visits [OF w]
  show ?case by auto
qed

lemma mc_scores_sum_exact:
  assumes "MonteCarloEngine_compute clock gen g seeds alpha total_walks = Done (res, gen')"
    and "seeds \<noteq> []" and "0 < total_walks"
  shows "sum_list (scores res) = 1"
proof -
  let ?N = "nat (num_nodes g)"
  have N: "\<not> num_nodes g < 0"
    using assms(1) by (auto simp: MonteCarloEngine_compute_def Let_def split: if_splits)
  from assms(1,2) N obtain visits' g1 where
    w: "walks g seeds alpha total_walks 0 (replicate ?N 0) gen = Done (visits', g1)"
    using assms(2)
    by (auto simp: MonteCarloEngine_compute_def Let_def split: outcome.splits)
  note v = walks_visits [OF w]
  have "sum_list (replicate n (0::int)) = 0" for n by (induction n) simp_all
  then have z: "sum_list (replicate ?N (0::int)) = 0" .
  have len: "length visits' = ?N" and pos: "0 < sum_list visits'"
    using v assms(3) by (simp_all add: z)
  have tot: "foldl (\<lambda>t v. t + v) 0 visits' = sum_list visits'"
    by (simp add: foldl_add_sum_list)
  have Nint: "num_nodes g = int (length visits')" using len N by simp
  from assms(1,2) N w obtain sc where
    sc: "normalize_scores visits' (foldl (\<lambda>t v. t + v) 0 visits') (num_nodes g) 0 (replicate ?N 0) = Some sc"
    and res: "scores res = sc"
    using pos tot
    by (auto simp: MonteCarloEngine_compute_def Let_def split: option.splits)
  have a1: "normalize_scores visits' (foldl (\<lambda>t v. t + v) 0 visits') (int (length visits')) 0
              (replicate (length visits') 0) = Some sc"
    using sc len unfolding Nint by simp
  have a2: "0 < foldl (\<lambda>t v. t + v) 0 visits'"
    using pos by (simp only: tot)
  show ?thesis using normalize_sum_exact [OF a1 a2] res by simp
qed

text \<open>
  The scores of \<^verbatim>\<open>MonteCarloEngine::compute\<close> depend on the random source: two runs
  on the three-node cycle with the seed 0, \<open>alpha = 1 / 2\<close> and one walk, which differ
  only in the draws.
\<close>

lemma mc_random_source:
  "map_option scores (case MonteCarloEngine_compute (0, 0) \<lparr>int_draws = [0], real_draws = [1 / 10]\<rparr>
       cycle3 [0] (1 / 2) 1 of Done (res, gen) \<Rightarrow> Some res | _ \<Rightarrow> None) = Some [1, 0, 0] \<and>
   map_option scores (case MonteCarloEngine_compute (0, 0) \<lparr>int_draws = [0], real_draws = [9 / 10, 1 / 2, 1 / 10]\<rparr>
       cycle3 [0] (1 / 2) 1 of Done (res, gen) \<Rightarrow> Some res | _ \<Rightarrow> None) = Some [1 / 2, 1 / 2, 0]"
  by (simp add: MonteCarloEngine_compute_def walks.simps walk.simps select_edge.simps
      normalize_scores.simps vec_at_def vec_put_def cycle3_def eval_nat_numeral)

end
